theory Spec2Isabelle
  imports Main "HOL-Library.Word"
begin

section \<open>Go values: machine integers, panics and errors\<close>

text \<open>
  The program is written in Go (a single file, main.go). Its \<^verbatim>\<open>int\<close> is the 64-bit
  two's complement integer of the usual 64-bit targets: arithmetic wraps around,
  comparisons are signed (\<open><s\<close>, \<open>\<le>s\<close>), and \<open>sint\<close> reads the value.
\<close>

type_synonym goint = "64 word"

text \<open>An \<^verbatim>\<open>error\<close> value, identified by its message.\<close>

datatype go_error = GoError string

text \<open>
  Run-time panics the program can raise: a negative shift count, \<^verbatim>\<open>make\<close> with a
  capacity out of range, \<^verbatim>\<open>append\<close> beyond the largest slice length, and the explicit
  \<^verbatim>\<open>panic(err)\<close> of \<^verbatim>\<open>main\<close>.
\<close>

datatype panic =
    NegativeShift
  | MakeSliceCapOutOfRange
  | GrowSliceLenOutOfRange
  | PanicValue go_error

text \<open>
  A function that returns \<^verbatim>\<open>(T, error)\<close> ends in one of three ways: it returns a value
  (\<open>Inr\<close>), it returns an error (\<open>Inl (Err e)\<close>), or a panic unwinds through it
  (\<open>Inl (Panic p)\<close>).
\<close>

datatype fault = Err go_error | Panic panic

text \<open>
  \<^verbatim>\<open>a << s\<close> on \<^verbatim>\<open>int\<close> operands: a negative count panics; a count of 64 or more
  shifts every bit out and gives 0 (which \<open>push_bit\<close> on a word does as well).
\<close>

definition go_shl :: "goint \<Rightarrow> goint \<Rightarrow> panic + goint" where
  "go_shl a s = (if s <s 0 then Inl NegativeShift else Inr (push_bit (unat s) a))"

text \<open>The largest length of a slice: the largest \<^verbatim>\<open>int\<close>.\<close>

definition maxInt :: nat where
  "maxInt = 2 ^ 63 - 1"

text \<open>
  The largest size in bytes of one allocation (\<^verbatim>\<open>maxAlloc\<close> of the Go run time): all
  of a 48-bit address space, as on linux/amd64.
\<close>

definition maxAlloc :: nat where
  "maxAlloc = 2 ^ 48"

text \<open>
  \<^verbatim>\<open>make([]T, 0, c)\<close> for elements of \<open>elem_size\<close> bytes. The run time checks the
  request before it allocates: it panics (\<^verbatim>\<open>makeslice: cap out of range\<close>) when the
  capacity is negative, and when the size in bytes \<open>elem_size * c\<close> overflows or is
  larger than \<open>maxAlloc\<close>; otherwise the result is an empty slice. A request that passes
  the check and finds the machine short of memory is not modelled.
\<close>

definition go_make :: "nat \<Rightarrow> goint \<Rightarrow> panic + 'a list" where
  "go_make elem_size c =
     (if c <s 0 \<or> maxAlloc < elem_size * unat c then Inl MakeSliceCapOutOfRange else Inr [])"

text \<open>
  \<^verbatim>\<open>append(s, v)\<close>: the length of a slice is an \<^verbatim>\<open>int\<close>, so growing a slice of
  the largest length panics.
\<close>

definition go_append :: "'a list \<Rightarrow> 'a \<Rightarrow> panic + 'a list" where
  "go_append s v = (if length s < maxInt then Inr (s @ [v]) else Inl GrowSliceLenOutOfRange)"

section \<open>Formatting: the fragment of \<^verbatim>\<open>fmt.Sprintf\<close> the program uses\<close>

definition digit_char :: "nat \<Rightarrow> char" where
  "digit_char n = ''0123456789'' ! n"

function dec_nat :: "nat \<Rightarrow> string" where
  "dec_nat n = (if n < 10 then [digit_char n] else dec_nat (n div 10) @ [digit_char (n mod 10)])"
  by pat_completeness auto
termination
  by (relation "measure id") auto

declare dec_nat.simps [simp del]

text \<open>The verb \<^verbatim>\<open>%d\<close> on an \<^verbatim>\<open>int\<close>: signed decimal, no padding.\<close>

definition fmt_d :: "goint \<Rightarrow> string" where
  "fmt_d i = (if i <s 0 then CHR ''-'' # dec_nat (nat (- sint i)) else dec_nat (nat (sint i)))"

datatype fmt_arg = ArgString string | ArgInt goint

text \<open>
  \<^verbatim>\<open>Sprintf\<close> with the verbs \<^verbatim>\<open>%s\<close> (on a string), \<^verbatim>\<open>%d\<close> (on an int) and
  \<^verbatim>\<open>%%\<close>. \<open>None\<close> stands for a call outside this fragment (another verb, an operand
  of the wrong type, a missing or an extra operand), which Go renders with
  \<^verbatim>\<open>%!\<close> markers; the program makes no such call.
\<close>

fun sprintf :: "string \<Rightarrow> fmt_arg list \<Rightarrow> string option" where
  "sprintf [] [] = Some []"
| "sprintf [] (a # as) = None"
| "sprintf [c] as = (if c = CHR ''%'' then None else map_option ((#) c) (sprintf [] as))"
| "sprintf (c # v # fs) as =
     (if c \<noteq> CHR ''%'' then map_option ((#) c) (sprintf (v # fs) as)
      else if v = CHR ''%'' then map_option ((#) CHR ''%'') (sprintf fs as)
      else if v = CHR ''s'' then
        (case as of
           ArgString s # as' \<Rightarrow> map_option ((@) s) (sprintf fs as')
         | _ \<Rightarrow> None)
      else if v = CHR ''d'' then
        (case as of
           ArgInt i # as' \<Rightarrow> map_option ((@) (fmt_d i)) (sprintf fs as')
         | _ \<Rightarrow> None)
      else None)"

section \<open>The program's data\<close>

definition tileSize :: goint where
  "tileSize = 512"

definition defaultZoom :: goint where
  "defaultZoom = 4"

definition trimThreshold :: int where
  "trimThreshold = 6"

record dimensions =
  width :: goint
  height :: goint

record tileConfig =
  cfg_x :: goint
  cfg_y :: goint
  cfg_url :: string

text \<open>
  The size of a \<^verbatim>\<open>tileConfig\<close> in memory: two integers of 8 bytes and a string
  header of 16 bytes.
\<close>

definition tileConfig_size :: nat where
  "tileConfig_size = 32"

section \<open>The tile URL\<close>

text \<open>
  \<^verbatim>\<open>makePanoUrl\<close> (main.go, lines 61-66). The format and its four operands are the
  source's; \<open>sprintf\<close> returns \<open>Some\<close> on them (\<open>makePanoUrl_sprintf\<close> below), so the
  second branch is never taken.
\<close>

definition pano_url_format :: string where
  "pano_url_format = ''https://cbk0.google.com/cbk?output=tile&panoid=%s&zoom=%d&x=%d&y=%d''"

definition makePanoUrl :: "string \<Rightarrow> goint \<Rightarrow> goint \<Rightarrow> goint \<Rightarrow> string" where
  "makePanoUrl panoId zoom x y =
     (case sprintf pano_url_format [ArgString panoId, ArgInt zoom, ArgInt x, ArgInt y] of
        Some s \<Rightarrow> s
      | None \<Rightarrow> [])"

section \<open>The tile grid planner\<close>

text \<open>\<^verbatim>\<open>getDimensionsFromZoom\<close> (lines 82-87): both shifts can panic.\<close>

definition getDimensionsFromZoom :: "goint \<Rightarrow> panic + dimensions" where
  "getDimensionsFromZoom zoom =
     (case go_shl 1 zoom of
        Inl p \<Rightarrow> Inl p
      | Inr w \<Rightarrow>
          (case go_shl 1 (zoom - 1) of
             Inl p \<Rightarrow> Inl p
           | Inr h \<Rightarrow> Inr \<lparr>width = w, height = h\<rparr>))"

text \<open>The struct literal of lines 95-99: the descriptor of the tile at \<open>(x, y)\<close>.\<close>

definition tileAt :: "string \<Rightarrow> goint \<Rightarrow> goint \<Rightarrow> goint \<Rightarrow> tileConfig" where
  "tileAt panoId zoom x y = \<lparr>cfg_x = x, cfg_y = y, cfg_url = makePanoUrl panoId zoom x y\<rparr>"

text \<open>
  The inner loop of \<^verbatim>\<open>getTilesConfig\<close> (lines 94-100):
  \<^verbatim>\<open>for y := 0; y < dim.height; y++ { tiles = append(tiles, tileConfig{...}) }\<close>,
  entered with the current \<open>y\<close> and \<open>tiles\<close>.
\<close>

function rowLoop ::
  "string \<Rightarrow> goint \<Rightarrow> dimensions \<Rightarrow> goint \<Rightarrow> goint \<Rightarrow> tileConfig list \<Rightarrow> panic + tileConfig list"
where
  "rowLoop panoId zoom dim x y tiles =
     (if y <s height dim then
        (case go_append tiles (tileAt panoId zoom x y) of
           Inl p \<Rightarrow> Inl p
         | Inr tiles' \<Rightarrow> rowLoop panoId zoom dim x (y + 1) tiles')
      else Inr tiles)"
  by pat_completeness auto
termination
proof (relation "measure (\<lambda>(panoId, zoom, dim, x, y, tiles). nat (sint (height dim) - sint y))")
  show "wf (measure (\<lambda>(panoId, zoom, dim, x, y, tiles). nat (sint (height dim) - sint y)))"
    by simp
next
  fix panoId :: string and zoom x y :: goint and dim :: dimensions
    and tiles tiles' :: "tileConfig list"
  assume less: "y <s height dim"
  have "sint (height dim) < 2 ^ 63"
    using sint_lt [of "height dim"] by simp
  moreover have "- (2 ^ 63) \<le> sint y"
    using sint_ge [of y] by simp
  ultimately have "sint (y + 1) = sint y + 1"
    using less by (simp add: word_sless_alt sint_word_ariths signed_take_bit_int_eq_self)
  then show "((panoId, zoom, dim, x, y + 1, tiles'), (panoId, zoom, dim, x, y, tiles))
      \<in> measure (\<lambda>(panoId, zoom, dim, x, y, tiles). nat (sint (height dim) - sint y))"
    using less by (simp add: word_sless_alt)
qed

declare rowLoop.simps [simp del]

text \<open>
  The outer loop (lines 93-101): \<^verbatim>\<open>for x := 0; x < dim.width; x++ { ... }\<close>, each
  round running the inner loop from \<open>y = 0\<close>.
\<close>

function colLoop ::
  "string \<Rightarrow> goint \<Rightarrow> dimensions \<Rightarrow> goint \<Rightarrow> tileConfig list \<Rightarrow> panic + tileConfig list"
where
  "colLoop panoId zoom dim x tiles =
     (if x <s width dim then
        (case rowLoop panoId zoom dim x 0 tiles of
           Inl p \<Rightarrow> Inl p
         | Inr tiles' \<Rightarrow> colLoop panoId zoom dim (x + 1) tiles')
      else Inr tiles)"
  by pat_completeness auto
termination
proof (relation "measure (\<lambda>(panoId, zoom, dim, x, tiles). nat (sint (width dim) - sint x))")
  show "wf (measure (\<lambda>(panoId, zoom, dim, x, tiles). nat (sint (width dim) - sint x)))"
    by simp
next
  fix panoId :: string and zoom x :: goint and dim :: dimensions
    and tiles tiles' :: "tileConfig list"
  assume less: "x <s width dim"
  have "sint (width dim) < 2 ^ 63"
    using sint_lt [of "width dim"] by simp
  moreover have "- (2 ^ 63) \<le> sint x"
    using sint_ge [of x] by simp
  ultimately have "sint (x + 1) = sint x + 1"
    using less by (simp add: word_sless_alt sint_word_ariths signed_take_bit_int_eq_self)
  then show "((panoId, zoom, dim, x + 1, tiles'), (panoId, zoom, dim, x, tiles))
      \<in> measure (\<lambda>(panoId, zoom, dim, x, tiles). nat (sint (width dim) - sint x))"
    using less by (simp add: word_sless_alt)
qed

declare colLoop.simps [simp del]

text \<open>\<^verbatim>\<open>getTilesConfig\<close> (lines 89-104).\<close>

definition getTilesConfig :: "string \<Rightarrow> goint \<Rightarrow> panic + tileConfig list" where
  "getTilesConfig panoId zoom =
     (case getDimensionsFromZoom zoom of
        Inl p \<Rightarrow> Inl p
      | Inr dim \<Rightarrow>
          (case go_make tileConfig_size (width dim * height dim) of
             Inl p \<Rightarrow> Inl p
           | Inr tiles \<Rightarrow> colLoop panoId zoom dim 0 tiles))"

section \<open>The outside world\<close>

text \<open>
  The program talks to a rate limiter, an HTTP client, the file system and an imaging
  library. None of them is code of the program: each is a parameter of the model, an
  oracle that answers a call from the arguments of the call and, where the answer may
  depend on what happened before, from the trace of the calls made so far. The trace is
  the state the program threads: every call to the outside world appends its event.
\<close>

type_synonym bytes = "8 word list"

text \<open>
  A \<^verbatim>\<open>context.Context\<close>: \<open>Background\<close> is \<^verbatim>\<open>context.Background()\<close>, which is never
  cancelled; \<open>Cancelled\<close> stands for a caller's context whose cancellation is signalled
  while the limiter makes the caller wait.
\<close>

datatype go_context = Background | Cancelled

record request =
  req_method :: string
  req_url :: string
  req_ctx :: go_context

text \<open>
  A \<^verbatim>\<open>*http.Response\<close>: its status code, and its body as a stream that delivers
  \<open>resp_body\<close> and then ends, with a read error when \<open>resp_body_err\<close> is set.
\<close>

record response =
  resp_status :: goint
  resp_body :: bytes
  resp_body_err :: "go_error option"

datatype event =
    Stdout string
  | LimiterWait go_context
  | HttpDo request
  | FileWrite string bytes
  | VipsStartup
  | VipsShutdown

type_synonym trace = "event list"

text \<open>
  An image of the imaging library: its size in pixels and the colour of each pixel.
  Only the pixels inside \<open>[0, img_width) \<times> [0, img_height)\<close> belong to the image.
\<close>

datatype pixel = Pixel nat nat nat

record image =
  img_width :: int
  img_height :: int
  img_pixel :: "int \<Rightarrow> int \<Rightarrow> pixel"

datatype color = Color nat nat nat

datatype color_rgba = ColorRGBA nat nat nat nat

text \<open>
  The oracles, one for each call the program makes outside its own code:
  \<^item> \<open>parse_url\<close>: the URL parsing of \<^verbatim>\<open>http.NewRequest\<close> (an error, or none);
  \<^item> \<open>limiter_wait\<close>: \<^verbatim>\<open>rate.Limiter.Wait(ctx)\<close>, which returns once the limiter admits
    the caller, or with an error;
  \<^item> \<open>client_do\<close>: \<^verbatim>\<open>http.Client.Do(req)\<close>;
  \<^item> \<open>write_file\<close>: \<^verbatim>\<open>os.WriteFile(name, data, 0644)\<close>;
  \<^item> \<open>vips_black\<close>: \<^verbatim>\<open>vips.Black(width, height)\<close>;
  \<^item> \<open>vips_decode\<close>: \<^verbatim>\<open>vips.NewImageFromBuffer(data)\<close>;
  \<^item> \<open>vips_insert\<close>: \<^verbatim>\<open>pano.Insert(image, x, y, expand, background)\<close>, which changes
    \<^verbatim>\<open>pano\<close> in place; the oracle returns the canvas after the insertion;
  \<^item> \<open>vips_find_trim\<close>: \<^verbatim>\<open>pano.FindTrim(threshold, background)\<close>;
  \<^item> \<open>vips_extract_area\<close>: \<^verbatim>\<open>pano.ExtractArea(left, top, width, height)\<close>;
  \<^item> \<open>vips_export\<close>: \<^verbatim>\<open>pano.Export\<close> with the default JPEG parameters.
\<close>

record env =
  parse_url :: "string \<Rightarrow> go_error option"
  limiter_wait :: "trace \<Rightarrow> go_context \<Rightarrow> go_error option"
  client_do :: "trace \<Rightarrow> request \<Rightarrow> go_error + response"
  write_file :: "trace \<Rightarrow> string \<Rightarrow> bytes \<Rightarrow> go_error option"
  vips_black :: "goint \<Rightarrow> goint \<Rightarrow> go_error + image"
  vips_decode :: "bytes \<Rightarrow> go_error + image"
  vips_insert :: "image \<Rightarrow> image \<Rightarrow> goint \<Rightarrow> goint \<Rightarrow> bool \<Rightarrow> color_rgba \<Rightarrow> go_error + image"
  vips_find_trim :: "image \<Rightarrow> int \<Rightarrow> color \<Rightarrow> go_error + (goint \<times> goint \<times> goint \<times> goint)"
  vips_extract_area :: "image \<Rightarrow> goint \<Rightarrow> goint \<Rightarrow> goint \<Rightarrow> goint \<Rightarrow> go_error + image"
  vips_export :: "image \<Rightarrow> go_error + bytes"

section \<open>The rate-limited fetcher\<close>

text \<open>
  \<^verbatim>\<open>RLHTTPClient.Do\<close> (lines 37-50). The two fields of the struct, the HTTP client
  and the limiter that \<^verbatim>\<open>NewClient\<close> (lines 52-59) stores, are the oracles
  \<open>client_do\<close> and \<open>limiter_wait\<close>. The context handed to the limiter is
  \<^verbatim>\<open>context.Background()\<close> (line 38), whatever context the request carries.
\<close>

definition RLHTTPClient_Do :: "env \<Rightarrow> request \<Rightarrow> trace \<Rightarrow> (go_error + response) \<times> trace" where
  "RLHTTPClient_Do env req tr =
     (let ctx = Background;
          tr1 = tr @ [LimiterWait ctx]
      in case limiter_wait env tr ctx of
           Some err \<Rightarrow> (Inl err, tr1)
         | None \<Rightarrow> (client_do env tr1 req, tr1 @ [HttpDo req]))"

text \<open>
  \<^verbatim>\<open>http.NewRequest(method, url, nil)\<close>: fails when the URL does not parse; the request
  it builds carries the background context.
\<close>

definition newRequest :: "env \<Rightarrow> string \<Rightarrow> string \<Rightarrow> go_error + request" where
  "newRequest env method u =
     (case parse_url env u of
        Some err \<Rightarrow> Inl err
      | None \<Rightarrow> Inr \<lparr>req_method = method, req_url = u, req_ctx = Background\<rparr>)"

text \<open>
  \<^verbatim>\<open>io.ReadAll(resp.Body)\<close>: the whole body, or the error that ended the stream.
  (Go returns the bytes read so far along with the error; the only caller drops them.)
\<close>

definition readAll :: "response \<Rightarrow> go_error + bytes" where
  "readAll resp =
     (case resp_body_err resp of
        Some err \<Rightarrow> Inl err
      | None \<Rightarrow> Inr (resp_body resp))"

text \<open>\<^verbatim>\<open>fetchTile\<close> (lines 68-80).\<close>

definition fetchTile :: "env \<Rightarrow> tileConfig \<Rightarrow> trace \<Rightarrow> (go_error + bytes) \<times> trace" where
  "fetchTile env config tr =
     (case newRequest env ''GET'' (cfg_url config) of
        Inl err \<Rightarrow> (Inl err, tr)
      | Inr req \<Rightarrow>
          (case RLHTTPClient_Do env req tr of
             (Inl err, tr') \<Rightarrow> (Inl err, tr')
           | (Inr resp, tr') \<Rightarrow> (readAll resp, tr')))"

section \<open>The downloader\<close>

record tileData =
  td_x :: goint
  td_y :: goint
  td_data :: bytes

text \<open>
  The two progress lines of \<^verbatim>\<open>getTiles\<close> (lines 111 and 114): \<^verbatim>\<open>fmt.Println\<close>
  writes its operands separated by spaces, the integers in decimal. The event holds the
  line without the newline that ends it.
\<close>

definition progress_line :: "string \<Rightarrow> tileConfig \<Rightarrow> nat \<Rightarrow> event" where
  "progress_line tag tile len_tiles =
     Stdout (tag @ '' '' @ fmt_d (cfg_x tile) @ '' '' @ fmt_d (cfg_y tile) @ '' of '' @ dec_nat len_tiles)"

text \<open>
  Lines 111-114, one round of the loop up to its error check: the first progress line,
  the fetch, the second progress line (printed whether or not the fetch failed).
\<close>

definition fetchStep :: "env \<Rightarrow> nat \<Rightarrow> tileConfig \<Rightarrow> trace \<Rightarrow> (go_error + bytes) \<times> trace" where
  "fetchStep env len_tiles tile tr =
     (case fetchTile env tile (tr @ [progress_line ''[Fetching]'' tile len_tiles]) of
        (r, tr') \<Rightarrow> (r, tr' @ [progress_line ''[Done]'' tile len_tiles]))"

text \<open>
  The loop of \<^verbatim>\<open>getTiles\<close> (lines 110-125) over the descriptors still to fetch, with
  the results collected so far; \<open>len_tiles\<close> is \<^verbatim>\<open>len(tiles)\<close>.
\<close>

fun fetchLoop ::
  "env \<Rightarrow> nat \<Rightarrow> tileConfig list \<Rightarrow> tileData list \<Rightarrow> trace \<Rightarrow> (fault + tileData list) \<times> trace"
where
  "fetchLoop env len_tiles [] results tr = (Inr results, tr)"
| "fetchLoop env len_tiles (tile # rest) results tr =
     (case fetchStep env len_tiles tile tr of
        (Inl err, tr') \<Rightarrow> (Inl (Err err), tr')
      | (Inr result, tr') \<Rightarrow>
          (case go_append results \<lparr>td_x = cfg_x tile, td_y = cfg_y tile, td_data = result\<rparr> of
             Inl p \<Rightarrow> (Inl (Panic p), tr')
           | Inr results' \<Rightarrow> fetchLoop env len_tiles rest results' tr'))"

text \<open>
  \<^verbatim>\<open>getTiles\<close> (lines 106-128). A panic of the planner unwinds through it. The
  \<^verbatim>\<open>make\<close> of line 108 has the capacity \<^verbatim>\<open>len(tiles)\<close>, which is never negative,
  and the model takes it to succeed: with 40 bytes to a \<^verbatim>\<open>tileData\<close> its size passes
  \<open>maxAlloc\<close> only for more than \<open>7 * 10 ^ 12\<close> descriptors, a list that itself takes
  more bytes than the \<open>2 ^ 47\<close> a process can address.
\<close>

definition getTiles :: "env \<Rightarrow> string \<Rightarrow> goint \<Rightarrow> trace \<Rightarrow> (fault + tileData list) \<times> trace" where
  "getTiles env panoId zoom tr =
     (case getTilesConfig panoId zoom of
        Inl p \<Rightarrow> (Inl (Panic p), tr)
      | Inr tiles \<Rightarrow> fetchLoop env (length tiles) tiles [] tr)"

section \<open>The compositor\<close>

text \<open>
  The loop of \<^verbatim>\<open>compositePano\<close> (lines 138-148). Its two error returns are kept
  apart, so that a theorem can say which of them a run takes.
\<close>

datatype paste_fault = DecodeFailed go_error | InsertFailed go_error

fun pasteLoop :: "env \<Rightarrow> tileData list \<Rightarrow> image \<Rightarrow> paste_fault + image" where
  "pasteLoop env [] pano = Inr pano"
| "pasteLoop env (tile # rest) pano =
     (case vips_decode env (td_data tile) of
        Inl err \<Rightarrow> Inl (DecodeFailed err)
      | Inr img \<Rightarrow>
          (case vips_insert env pano img (tileSize * td_x tile) (tileSize * td_y tile)
                  False (ColorRGBA 0 0 0 0) of
             Inl err \<Rightarrow> Inl (InsertFailed err)
           | Inr pano' \<Rightarrow> pasteLoop env rest pano'))"

definition paste_error :: "paste_fault \<Rightarrow> go_error" where
  "paste_error f = (case f of DecodeFailed err \<Rightarrow> err | InsertFailed err \<Rightarrow> err)"

text \<open>Lines 131-148 of \<^verbatim>\<open>compositePano\<close>: the canvas with every tile pasted.\<close>

definition assembleCanvas :: "env \<Rightarrow> tileData list \<Rightarrow> goint \<Rightarrow> fault + image" where
  "assembleCanvas env tiles zoom =
     (case getDimensionsFromZoom zoom of
        Inl p \<Rightarrow> Inl (Panic p)
      | Inr dim \<Rightarrow>
          (case vips_black env (tileSize * width dim) (tileSize * height dim) of
             Inl err \<Rightarrow> Inl (Err err)
           | Inr pano \<Rightarrow>
               (case pasteLoop env tiles pano of
                  Inl f \<Rightarrow> Inl (Err (paste_error f))
                | Inr pano' \<Rightarrow> Inr pano')))"

text \<open>Lines 150-160: the trim.\<close>

definition trimPano :: "env \<Rightarrow> image \<Rightarrow> fault + image" where
  "trimPano env pano =
     (case vips_find_trim env pano trimThreshold (Color 0 0 0) of
        Inl err \<Rightarrow> Inl (Err err)
      | Inr (l, t, w, h) \<Rightarrow>
          (case vips_extract_area env pano l t w h of
             Inl err \<Rightarrow> Inl (Err err)
           | Inr pano' \<Rightarrow> Inr pano'))"

text \<open>\<^verbatim>\<open>compositePano\<close> (lines 130-161).\<close>

definition compositePano :: "env \<Rightarrow> tileData list \<Rightarrow> goint \<Rightarrow> fault + image" where
  "compositePano env tiles zoom =
     (case assembleCanvas env tiles zoom of
        Inl f \<Rightarrow> Inl f
      | Inr pano \<Rightarrow> trimPano env pano)"

section \<open>The program\<close>

datatype exit_status = ExitOK | ExitPanic panic

text \<open>\<^verbatim>\<open>panic(err)\<close> on a returned error; a run-time panic keeps unwinding.\<close>

definition as_panic :: "fault \<Rightarrow> panic" where
  "as_panic f = (case f of Err err \<Rightarrow> PanicValue err | Panic p \<Rightarrow> p)"

definition panoId_main :: string where
  "panoId_main = ''KGt-9AaQ7UTn_PgwRqtTOg''"

text \<open>
  \<^verbatim>\<open>main\<close> (lines 163-188). The deferred \<^verbatim>\<open>vips.Shutdown\<close> runs on every way out.
  The limiter of lines 168-169 (one event every 200 ms, burst 1) is the oracle
  \<open>limiter_wait\<close> of the environment. The error of \<^verbatim>\<open>os.WriteFile\<close> is assigned
  (line 187) and never read.
\<close>

definition main :: "env \<Rightarrow> exit_status \<times> trace" where
  "main env =
     (case getTiles env panoId_main defaultZoom [VipsStartup] of
        (Inl f, tr) \<Rightarrow> (ExitPanic (as_panic f), tr @ [VipsShutdown])
      | (Inr tiles, tr) \<Rightarrow>
          (case compositePano env tiles defaultZoom of
             Inl f \<Rightarrow> (ExitPanic (as_panic f), tr @ [VipsShutdown])
           | Inr pano \<Rightarrow>
               (case vips_export env pano of
                  Inl err \<Rightarrow> (ExitPanic (PanicValue err), tr @ [VipsShutdown])
                | Inr imageBytes \<Rightarrow>
                    (let err = write_file env tr ''pano.jpg'' imageBytes
                     in (ExitOK, tr @ [FileWrite ''pano.jpg'' imageBytes, VipsShutdown])))))"

section \<open>What the imaging library is expected to do\<close>

text \<open>
  The operations of the imaging library as its documentation describes them, on the
  image model above. The theorems about the compositor name these as hypotheses on the
  environment; nothing in the model of the program depends on them.
\<close>

text \<open>A black image of the given size.\<close>

definition blank :: "int \<Rightarrow> int \<Rightarrow> image" where
  "blank w h = \<lparr>img_width = w, img_height = h, img_pixel = \<lambda>i j. Pixel 0 0 0\<rparr>"

definition inside :: "image \<Rightarrow> int \<Rightarrow> int \<Rightarrow> bool" where
  "inside img i j \<longleftrightarrow> 0 \<le> i \<and> i < img_width img \<and> 0 \<le> j \<and> j < img_height img"

text \<open>The pixels an image pasted at offset \<open>(x0, y0)\<close> covers.\<close>

definition covers :: "image \<Rightarrow> int \<Rightarrow> int \<Rightarrow> int \<Rightarrow> int \<Rightarrow> bool" where
  "covers sub x0 y0 i j \<longleftrightarrow>
     x0 \<le> i \<and> i < x0 + img_width sub \<and> y0 \<le> j \<and> j < y0 + img_height sub"

text \<open>
  Insertion without expansion and without blending: the result has the size of the main
  image, and every pixel of it that the inserted image covers shows the inserted image.
\<close>

definition paste :: "image \<Rightarrow> image \<Rightarrow> int \<Rightarrow> int \<Rightarrow> image" where
  "paste main_img sub x0 y0 =
     main_img\<lparr>img_pixel := \<lambda>i j.
        if inside main_img i j \<and> covers sub x0 y0 i j then img_pixel sub (i - x0) (j - y0)
        else img_pixel main_img i j\<rparr>"

text \<open>The inserted image lies entirely within the main image.\<close>

definition fits :: "image \<Rightarrow> image \<Rightarrow> int \<Rightarrow> int \<Rightarrow> bool" where
  "fits main_img sub x0 y0 \<longleftrightarrow>
     0 \<le> x0 \<and> 0 \<le> y0 \<and> x0 + img_width sub \<le> img_width main_img
       \<and> y0 + img_height sub \<le> img_height main_img"

definition black_contract :: "env \<Rightarrow> bool" where
  "black_contract env \<longleftrightarrow>
     (\<forall>w h img. vips_black env w h = Inr img \<longrightarrow> img = blank (sint w) (sint h))"

definition insert_contract :: "env \<Rightarrow> bool" where
  "insert_contract env \<longleftrightarrow>
     (\<forall>main_img sub x0 y0 bg img.
        vips_insert env main_img sub x0 y0 False bg = Inr img \<longrightarrow>
          img = paste main_img sub (sint x0) (sint y0))"

text \<open>An insertion is refused only when the inserted image leaves the main image.\<close>

definition insert_fails_only_outside :: "env \<Rightarrow> bool" where
  "insert_fails_only_outside env \<longleftrightarrow>
     (\<forall>main_img sub x0 y0 bg err.
        vips_insert env main_img sub x0 y0 False bg = Inl err \<longrightarrow>
          \<not> fits main_img sub (sint x0) (sint y0))"

text \<open>Every tile of the list decodes to an image of \<open>tileSize\<close> by \<open>tileSize\<close> pixels.\<close>

definition square_tiles :: "env \<Rightarrow> tileData list \<Rightarrow> bool" where
  "square_tiles env tiles \<longleftrightarrow>
     (\<forall>t \<in> set tiles. \<forall>img. vips_decode env (td_data t) = Inr img \<longrightarrow>
        img_width img = sint tileSize \<and> img_height img = sint tileSize)"

text \<open>
  What pasting one tile does to the canvas when decoding and insertion succeed, at the
  offset the compositor computes (a product of Go integers).
\<close>

definition place :: "env \<Rightarrow> tileData \<Rightarrow> image \<Rightarrow> image" where
  "place env t canvas =
     (case vips_decode env (td_data t) of
        Inl err \<Rightarrow> canvas
      | Inr img \<Rightarrow> paste canvas img (sint (tileSize * td_x t)) (sint (tileSize * td_y t)))"

text \<open>The pixels of the canvas that tile \<open>t\<close> is pasted on.\<close>

definition tile_covers :: "env \<Rightarrow> tileData \<Rightarrow> int \<Rightarrow> int \<Rightarrow> bool" where
  "tile_covers env t i j \<longleftrightarrow>
     (case vips_decode env (td_data t) of
        Inl err \<Rightarrow> False
      | Inr img \<Rightarrow> covers img (sint (tileSize * td_x t)) (sint (tileSize * td_y t)) i j)"

text \<open>The pixel of tile \<open>t\<close> that lands on the pixel \<open>(i, j)\<close> of the canvas.\<close>

definition tile_pixel :: "env \<Rightarrow> tileData \<Rightarrow> int \<Rightarrow> int \<Rightarrow> pixel" where
  "tile_pixel env t i j =
     (case vips_decode env (td_data t) of
        Inl err \<Rightarrow> Pixel 0 0 0
      | Inr img \<Rightarrow>
          img_pixel img (i - sint (tileSize * td_x t)) (j - sint (tileSize * td_y t)))"

text \<open>
  Two tiles overlap when the rectangles they are pasted on meet: some pixel is covered
  by both (lemma \<open>covered_twice_overlap\<close> below).
\<close>

definition tiles_overlap :: "env \<Rightarrow> tileData \<Rightarrow> tileData \<Rightarrow> bool" where
  "tiles_overlap env a b \<longleftrightarrow>
     (case (vips_decode env (td_data a), vips_decode env (td_data b)) of
        (Inr img_a, Inr img_b) \<Rightarrow>
          max (sint (tileSize * td_x a)) (sint (tileSize * td_x b))
            < min (sint (tileSize * td_x a) + img_width img_a)
                  (sint (tileSize * td_x b) + img_width img_b)
          \<and> max (sint (tileSize * td_y a)) (sint (tileSize * td_y b))
            < min (sint (tileSize * td_y a) + img_height img_a)
                  (sint (tileSize * td_y b) + img_height img_b)
      | _ \<Rightarrow> False)"

text \<open>No two different tiles of the list overlap.\<close>

definition no_overlap :: "env \<Rightarrow> tileData list \<Rightarrow> bool" where
  "no_overlap env tiles \<longleftrightarrow>
     (\<forall>a \<in> set tiles. \<forall>b \<in> set tiles. a \<noteq> b \<longrightarrow> \<not> tiles_overlap env a b)"

section \<open>Requests, admissions and time\<close>

text \<open>
  A run is read off its trace: the requests issued are its \<open>HttpDo\<close> events, and an
  admission is a \<open>LimiterWait\<close> event that the limiter answered with no error, given the
  trace before it.
\<close>

definition is_request :: "event \<Rightarrow> bool" where
  "is_request e = (case e of HttpDo req \<Rightarrow> True | _ \<Rightarrow> False)"

definition admitted :: "env \<Rightarrow> trace \<Rightarrow> event \<Rightarrow> bool" where
  "admitted env before e =
     (case e of LimiterWait ctx \<Rightarrow> limiter_wait env before ctx = None | _ \<Rightarrow> False)"

text \<open>The last event of the trace is an admission.\<close>

definition follows_admission :: "env \<Rightarrow> trace \<Rightarrow> bool" where
  "follows_admission env tr =
     (case rev tr of [] \<Rightarrow> False | e # before \<Rightarrow> admitted env (rev before) e)"

text \<open>
  Every request among the events \<open>ext\<close>, which extend the trace \<open>before\<close>, directly
  follows an admission.
\<close>

primrec guarded :: "env \<Rightarrow> trace \<Rightarrow> trace \<Rightarrow> bool" where
  "guarded env before [] = True"
| "guarded env before (e # ext) =
     ((is_request e \<longrightarrow> follows_admission env before) \<and> guarded env (before @ [e]) ext)"

text \<open>The number of admissions among the events \<open>ext\<close> that extend the trace \<open>before\<close>.\<close>

primrec admissions :: "env \<Rightarrow> trace \<Rightarrow> trace \<Rightarrow> nat" where
  "admissions env before [] = 0"
| "admissions env before (e # ext) =
     (if admitted env before e then 1 else 0) + admissions env (before @ [e]) ext"

text \<open>
  What a run adds to the trace: a part in which every request directly follows an
  admission, with no more requests than admissions.
\<close>

definition limited_run :: "env \<Rightarrow> trace \<Rightarrow> trace \<Rightarrow> bool" where
  "limited_run env tr ext \<longleftrightarrow>
     guarded env tr ext \<and> length (filter is_request ext) \<le> admissions env tr ext"

text \<open>
  Wall-clock time is a parameter as well: a clock gives the time, in milliseconds, at
  which the run had produced a trace. Time does not run backwards along a run.
\<close>

type_synonym clock = "trace \<Rightarrow> nat"

definition monotone_clock :: "clock \<Rightarrow> trace \<Rightarrow> bool" where
  "monotone_clock clk full \<longleftrightarrow> (\<forall>a b c. full = a @ b @ c \<longrightarrow> clk a \<le> clk (a @ b))"

text \<open>
  What a limiter of one event per \<open>interval\<close> and burst 1 does to a run: two admissions
  lie at least \<open>interval\<close> apart. (\<open>clk (a @ [w])\<close> is the time at which the wait \<open>w\<close>
  returned.) Nothing is asked of the first admission, which may be immediate.
\<close>

definition limiter_spaced :: "env \<Rightarrow> clock \<Rightarrow> nat \<Rightarrow> trace \<Rightarrow> bool" where
  "limiter_spaced env clk interval full \<longleftrightarrow>
     (\<forall>a w b w' c.
        full = a @ w # b @ w' # c \<and> admitted env a w \<and> admitted env (a @ w # b) w'
        \<longrightarrow> clk (a @ [w]) + interval \<le> clk (a @ w # b @ [w']))"

section \<open>An environment to run the program in\<close>

text \<open>
  A concrete environment, used to run the model on examples: every URL parses, the
  limiter admits a waiter unless its context is cancelled, the server answers every
  request with status 404 and a three-byte body, writing a file fails, and the imaging
  operations behave as described above (an insertion that does not fit is refused).
\<close>

definition demo_response :: response where
  "demo_response = \<lparr>resp_status = 404, resp_body = [1, 2, 3], resp_body_err = None\<rparr>"

definition demo_tile :: "8 word \<Rightarrow> image" where
  "demo_tile b =
     \<lparr>img_width = 512, img_height = 512, img_pixel = \<lambda>i j. Pixel (unat b) (unat b) (unat b)\<rparr>"

definition demo_env :: env where
  "demo_env =
     \<lparr>parse_url = (\<lambda>u. None),
      limiter_wait = (\<lambda>tr ctx.
         case ctx of Background \<Rightarrow> None | Cancelled \<Rightarrow> Some (GoError ''context canceled'')),
      client_do = (\<lambda>tr req. Inr demo_response),
      write_file = (\<lambda>tr name data. Some (GoError ''permission denied'')),
      vips_black = (\<lambda>w h.
         if 0 <s w \<and> 0 <s h then Inr (blank (sint w) (sint h))
         else Inl (GoError ''black: bad size'')),
      vips_decode = (\<lambda>data.
         case data of [] \<Rightarrow> Inl (GoError ''decode: no data'') | b # bs \<Rightarrow> Inr (demo_tile b)),
      vips_insert = (\<lambda>main_img sub x0 y0 expand bg.
         if fits main_img sub (sint x0) (sint y0) then Inr (paste main_img sub (sint x0) (sint y0))
         else Inl (GoError ''insert: out of bounds'')),
      vips_find_trim = (\<lambda>img threshold bg.
         Inr (0, 0, word_of_int (img_width img), word_of_int (img_height img))),
      vips_extract_area = (\<lambda>img l t w h. Inr img),
      vips_export = (\<lambda>img. Inr [255, 216])\<rparr>"

text \<open>The same environment with a server that refuses the request for one URL.\<close>

definition failing_env :: "string \<Rightarrow> env" where
  "failing_env u =
     demo_env\<lparr>client_do := (\<lambda>tr req.
        if req_url req = u then Inl (GoError ''connection reset'') else Inr demo_response)\<rparr>"

text \<open>A request whose own context is cancelled, as a caller other than \<open>fetchTile\<close> could pass.\<close>

definition cancelled_request :: request where
  "cancelled_request =
     \<lparr>req_method = ''GET'', req_url = ''https://example.org/'', req_ctx = Cancelled\<rparr>"

text \<open>Two tiles side by side, for the grid of zoom 1.\<close>

definition demo_tiles :: "tileData list" where
  "demo_tiles =
     [\<lparr>td_x = 0, td_y = 0, td_data = [7]\<rparr>, \<lparr>td_x = 1, td_y = 0, td_data = [9]\<rparr>]"

text \<open>
  A clock for the example environment: the first wait returns at time 0, every later
  wait 200 ms after the one before it, and nothing else takes time.
\<close>

definition demo_clock :: clock where
  "demo_clock tr = 200 * (length (filter (\<lambda>e. case e of LimiterWait ctx \<Rightarrow> True | _ \<Rightarrow> False) tr) - 1)"

section \<open>Decimal formatting and the tile URL\<close>

lemma digit_char_inj: "a < 10 \<Longrightarrow> b < 10 \<Longrightarrow> digit_char a = digit_char b \<Longrightarrow> a = b"
proof -
  assume a: "a < 10" and b: "b < 10" and e: "digit_char a = digit_char b"
  have d: "distinct ''0123456789''" by simp
  have l: "length ''0123456789'' = 10" by simp
  from e have "''0123456789'' ! a = ''0123456789'' ! b" by (simp add: digit_char_def)
  with d a b l show "a = b" by (metis nth_eq_iff_index_eq)
qed

lemma digit_char_in: "a < 10 \<Longrightarrow> digit_char a \<in> set ''0123456789''"
proof -
  assume "a < 10"
  then have "a < length ''0123456789''" by simp
  then show ?thesis unfolding digit_char_def by (rule nth_mem)
qed

lemma dec_nat_not_Nil: "dec_nat n \<noteq> []"
  by (subst dec_nat.simps) simp

lemma dec_nat_digits: "set (dec_nat n) \<subseteq> set ''0123456789''"
proof (induction n rule: dec_nat.induct)
  case (1 n)
  show ?case
  proof (cases "n < 10")
    case True
    then show ?thesis using digit_char_in [of n] by (subst dec_nat.simps) simp
  next
    case False
    have "n mod 10 < 10" by simp
    then have "digit_char (n mod 10) \<in> set ''0123456789''" by (rule digit_char_in)
    with False 1 show ?thesis by (subst dec_nat.simps) simp
  qed
qed

lemma dec_nat_inj: "dec_nat n = dec_nat m \<Longrightarrow> n = m"
proof (induction n arbitrary: m rule: dec_nat.induct)
  case (1 n)
  show ?case
  proof (cases "n < 10")
    case n: True
    show ?thesis
    proof (cases "m < 10")
      case True
      with n 1(2) show ?thesis
        using digit_char_inj [of n m] by (simp add: dec_nat.simps [of n] dec_nat.simps [of m])
    next
      case False
      with n 1(2) dec_nat_not_Nil [of "m div 10"] show ?thesis
        by (simp add: dec_nat.simps [of n] dec_nat.simps [of m])
    qed
  next
    case n: False
    show ?thesis
    proof (cases "m < 10")
      case True
      with n 1(2) dec_nat_not_Nil [of "n div 10"] show ?thesis
        by (simp add: dec_nat.simps [of n] dec_nat.simps [of m])
    next
      case False
      with n 1(2) have e: "dec_nat (n div 10) = dec_nat (m div 10)"
        and d: "digit_char (n mod 10) = digit_char (m mod 10)"
        by (simp_all add: dec_nat.simps [of n] dec_nat.simps [of m])
      from 1(1) [OF n e] have "n div 10 = m div 10" .
      moreover from d have "n mod 10 = m mod 10"
        by (intro digit_char_inj) simp_all
      ultimately show ?thesis by (metis div_mult_mod_eq)
    qed
  qed
qed

lemma fmt_d_inj: "fmt_d a = fmt_d b \<Longrightarrow> a = b"
proof -
  assume e: "fmt_d a = fmt_d b"
  have minus: "CHR ''-'' \<notin> set (dec_nat k)" for k
    using dec_nat_digits [of k] by auto
  have hd_not: "dec_nat k \<noteq> CHR ''-'' # s" for k s
    using minus [of k] by (metis list.set_intros(1))
  show "a = b"
  proof (cases "a <s 0")
    case a: True
    show ?thesis
    proof (cases "b <s 0")
      case True
      with a e have "dec_nat (nat (- sint a)) = dec_nat (nat (- sint b))"
        by (simp add: fmt_d_def)
      then have "nat (- sint a) = nat (- sint b)" by (rule dec_nat_inj)
      with a True have "sint a = sint b" by (simp add: word_sless_alt)
      then show ?thesis by (rule signed_word_eqI)
    next
      case False
      with a e hd_not show ?thesis by (simp add: fmt_d_def) metis
    qed
  next
    case a: False
    show ?thesis
    proof (cases "b <s 0")
      case True
      with a e hd_not show ?thesis by (simp add: fmt_d_def) 
    next
      case False
      with a e have "dec_nat (nat (sint a)) = dec_nat (nat (sint b))"
        by (simp add: fmt_d_def)
      then have "nat (sint a) = nat (sint b)" by (rule dec_nat_inj)
      with a False have "sint a = sint b" by (simp add: word_sless_alt)
      then show ?thesis by (rule signed_word_eqI)
    qed
  qed
qed

lemma fmt_d_no_amp: "CHR ''&'' \<notin> set (fmt_d i)"
  using dec_nat_digits [of "nat (- sint i)"] dec_nat_digits [of "nat (sint i)"]
  by (auto simp: fmt_d_def)

text \<open>The last occurrence of a separator splits a string in one way only.\<close>

lemma split_at_last:
  assumes "u @ a # s = u' @ a # s'" and "a \<notin> set s" and "a \<notin> set s'"
  shows "u = u' \<and> s = s'"
  using assms
proof (induction u arbitrary: u')
  case Nil
  then show ?case by (cases u') auto
next
  case (Cons c t)
  show ?case
  proof (cases u')
    case Nil
    with Cons.prems show ?thesis by auto
  next
    case (Cons b w)
    with Cons.prems Cons.IH [of w] show ?thesis by simp
  qed
qed

lemma makePanoUrl_sprintf:
  "sprintf pano_url_format [ArgString panoId, ArgInt zoom, ArgInt x, ArgInt y] =
     Some (''https://cbk0.google.com/cbk?output=tile&panoid='' @ panoId @ ''&zoom='' @ fmt_d zoom
       @ ''&x='' @ fmt_d x @ ''&y='' @ fmt_d y)"
  by (simp add: pano_url_format_def)

lemma makePanoUrl_eq:
  "makePanoUrl panoId zoom x y =
     ''https://cbk0.google.com/cbk?output=tile&panoid='' @ panoId @ ''&zoom='' @ fmt_d zoom
       @ ''&x='' @ fmt_d x @ ''&y='' @ fmt_d y"
  by (simp only: makePanoUrl_def makePanoUrl_sprintf option.case)

lemma makePanoUrl_inj:
  assumes "makePanoUrl p z x y = makePanoUrl p' z' x' y'"
  shows "p = p' \<and> z = z' \<and> x = x' \<and> y = y'"
proof -
  have amp: "CHR ''&'' \<notin> set (t @ fmt_d i)" if "CHR ''&'' \<notin> set t" for t i
    using that fmt_d_no_amp [of i] by simp
  have ky: "CHR ''&'' \<notin> set (''y='' @ fmt_d i)" for i by (rule amp) simp
  have kx: "CHR ''&'' \<notin> set (''x='' @ fmt_d i)" for i by (rule amp) simp
  have kz: "CHR ''&'' \<notin> set (''zoom='' @ fmt_d i)" for i by (rule amp) simp
  define u where "u = p @ ''&zoom='' @ fmt_d z @ ''&x='' @ fmt_d x"
  define u' where "u' = p' @ ''&zoom='' @ fmt_d z' @ ''&x='' @ fmt_d x'"
  define v where "v = p @ ''&zoom='' @ fmt_d z"
  define v' where "v' = p' @ ''&zoom='' @ fmt_d z'"
  from assms have "u @ CHR ''&'' # (''y='' @ fmt_d y) = u' @ CHR ''&'' # (''y='' @ fmt_d y')"
    by (simp add: makePanoUrl_eq u_def u'_def)
  from split_at_last [OF this ky ky] have 1: "u = u'" and y: "fmt_d y = fmt_d y'"
    by simp_all
  from 1 have "v @ CHR ''&'' # (''x='' @ fmt_d x) = v' @ CHR ''&'' # (''x='' @ fmt_d x')"
    by (simp add: u_def u'_def v_def v'_def)
  from split_at_last [OF this kx kx] have 2: "v = v'" and x: "fmt_d x = fmt_d x'"
    by simp_all
  from 2 have "p @ CHR ''&'' # (''zoom='' @ fmt_d z) = p' @ CHR ''&'' # (''zoom='' @ fmt_d z')"
    by (simp add: v_def v'_def)
  from split_at_last [OF this kz kz] have 3: "p = p'" and z: "fmt_d z = fmt_d z'"
    by simp_all
  from 3 x y z show ?thesis by (simp add: fmt_d_inj)
qed

text \<open>
  Claim C4. The URL of a tile is the template
  \<^verbatim>\<open>https://cbk0.google.com/cbk?output=tile&panoid=<panoramaId>&zoom=<zoom>&x=<column>&y=<row>\<close>
  with the panorama id inserted as it is and the three integers in signed decimal, and
  the mapping is injective: two calls give the same URL exactly when all four arguments
  agree (so changing any one field changes the URL).
\<close>

theorem makePanoUrl_template_injective:
  "makePanoUrl panoId zoom x y =
     ''https://cbk0.google.com/cbk?output=tile&panoid='' @ panoId @ ''&zoom='' @ fmt_d zoom
       @ ''&x='' @ fmt_d x @ ''&y='' @ fmt_d y
   \<and> (makePanoUrl panoId zoom x y = makePanoUrl panoId' zoom' x' y'
        \<longleftrightarrow> panoId = panoId' \<and> zoom = zoom' \<and> x = x' \<and> y = y')"
  using makePanoUrl_eq [of panoId zoom x y] makePanoUrl_inj [of panoId zoom x y panoId' zoom' x' y']
  by blast

theorem makePanoUrl_template_injective_witness:
  "makePanoUrl ''ABC'' 2 3 1 = ''https://cbk0.google.com/cbk?output=tile&panoid=ABC&zoom=2&x=3&y=1''
   \<and> makePanoUrl ''ABC'' 2 3 1 \<noteq> makePanoUrl ''ABC'' 2 3 0"
proof -
  have digits: "fmt_d 2 = ''2''" "fmt_d 3 = ''3''" "fmt_d 1 = ''1''"
    by (simp_all add: fmt_d_def dec_nat.simps digit_char_def word_sless_alt)
  note inst = makePanoUrl_template_injective [of "''ABC''" 2 3 1 "''ABC''" 2 3 0]
  from inst have "makePanoUrl ''ABC'' 2 3 1 =
      ''https://cbk0.google.com/cbk?output=tile&panoid='' @ ''ABC'' @ ''&zoom='' @ fmt_d 2
        @ ''&x='' @ fmt_d 3 @ ''&y='' @ fmt_d 1"
    by (rule conjunct1)
  then have url: "makePanoUrl ''ABC'' 2 3 1 =
      ''https://cbk0.google.com/cbk?output=tile&panoid=ABC&zoom=2&x=3&y=1''"
    by (simp add: digits)
  from inst have "makePanoUrl ''ABC'' 2 3 1 = makePanoUrl ''ABC'' 2 3 0
      \<longleftrightarrow> ''ABC'' = ''ABC'' \<and> (2::goint) = 2 \<and> (3::goint) = 3 \<and> (1::goint) = 0"
    by (rule conjunct2)
  then have "makePanoUrl ''ABC'' 2 3 1 \<noteq> makePanoUrl ''ABC'' 2 3 0"
    by simp
  with url show ?thesis by (rule conjI)
qed

section \<open>The planner\<close>

lemma sint_succ: "(y::goint) <s h \<Longrightarrow> sint (y + 1) = sint y + 1"
proof -
  assume less: "y <s h"
  have "sint h < 2 ^ 63" using sint_lt [of h] by simp
  moreover have "- (2 ^ 63) \<le> sint y" using sint_ge [of y] by simp
  ultimately show ?thesis
    using less by (simp add: word_sless_alt sint_word_ariths signed_take_bit_int_eq_self)
qed

lemma sint_pow2: "n < 63 \<Longrightarrow> sint (2 ^ n :: goint) = 2 ^ n"
proof -
  assume n: "n < 63"
  have "(2::int) ^ n < 2 ^ 63" by (rule power_strict_increasing) (use n in simp_all)
  moreover have "- (2 ^ 63) \<le> (2::int) ^ n" 
    by (rule order_trans [of _ 0]) simp_all
  moreover have "sint (2 ^ n :: goint) = signed_take_bit 63 (2 ^ n)"
    using sint_sbintrunc' [where 'a = 64, of "2 ^ n"] by simp
  ultimately show ?thesis by (simp only: signed_take_bit_int_eq_self)
qed

lemma unat_of_nat_small: "n < 2 ^ 64 \<Longrightarrow> unat (of_nat n :: goint) = n"
  by (simp add: unat_of_nat)

lemma sint_of_nat_small: "n < 2 ^ 63 \<Longrightarrow> sint (of_nat n :: goint) = int n"
proof -
  assume n: "n < 2 ^ 63"
  then have "int n < 2 ^ 63" by (metis of_nat_less_iff of_nat_numeral of_nat_power)
  moreover have "- (2 ^ 63) \<le> int n" by (rule order_trans [of _ 0]) simp_all
  moreover have "sint (of_nat n :: goint) = signed_take_bit 63 (int n)"
    using sint_sbintrunc' [where 'a = 64, of "int n"] by simp
  ultimately show ?thesis by (simp add: signed_take_bit_int_eq_self)
qed

text \<open>What the two loops compute, from any point of their run.\<close>

lemma rowLoop_run:
  assumes "length tiles \<le> maxInt"
  shows "rowLoop panoId zoom dim x y tiles =
    (if length tiles + nat (sint (height dim) - sint y) \<le> maxInt
     then Inr (tiles @ map (\<lambda>j. tileAt panoId zoom x (y + of_nat j))
                 [0..<nat (sint (height dim) - sint y)])
     else Inl GrowSliceLenOutOfRange)"
  using assms
proof (induction "nat (sint (height dim) - sint y)" arbitrary: y tiles)
  case 0
  then have "\<not> y <s height dim" by (simp add: word_sless_alt)
  with 0 show ?case by (subst rowLoop.simps) simp
next
  case (Suc n)
  then have less: "y <s height dim" by (simp add: word_sless_alt)
  then have succ: "sint (y + 1) = sint y + 1" by (rule sint_succ)
  with Suc(2) have n: "n = nat (sint (height dim) - sint (y + 1))" by simp
  show ?case
  proof (cases "length tiles < maxInt")
    case True
    then have len: "length (tiles @ [tileAt panoId zoom x y]) \<le> maxInt" by simp
    have shift: "map (\<lambda>j. tileAt panoId zoom x (y + of_nat j)) [0..<Suc n] =
        tileAt panoId zoom x y # map (\<lambda>j. tileAt panoId zoom x (y + 1 + of_nat j)) [0..<n]"
      by (simp add: upt_conv_Cons map_Suc_upt [symmetric] add.assoc del: upt_Suc)
    have "rowLoop panoId zoom dim x y tiles =
        rowLoop panoId zoom dim x (y + 1) (tiles @ [tileAt panoId zoom x y])"
      using less True by (subst rowLoop.simps) (simp add: go_append_def)
    also note Suc(1) [OF n len]
    finally show ?thesis
      using True Suc(2) [symmetric] n [symmetric] shift by simp
  next
    case False
    with less Suc(2) [symmetric] Suc(3) show ?thesis
      by (subst rowLoop.simps) (simp add: go_append_def)
  qed
qed

lemma colLoop_run:
  assumes "length tiles \<le> maxInt" and "0 \<le> sint x"
  shows "colLoop panoId zoom dim x tiles =
    (if length tiles + nat (sint (width dim) - sint x) * nat (sint (height dim)) \<le> maxInt
     then Inr (tiles @ concat (map (\<lambda>i. map (\<lambda>j. tileAt panoId zoom (x + of_nat i) (of_nat j))
                 [0..<nat (sint (height dim))]) [0..<nat (sint (width dim) - sint x)]))
     else Inl GrowSliceLenOutOfRange)"
  using assms
proof (induction "nat (sint (width dim) - sint x)" arbitrary: x tiles)
  case 0
  then have "\<not> x <s width dim" by (simp add: word_sless_alt)
  with 0 show ?case by (subst colLoop.simps) simp
next
  case (Suc n)
  let ?rows = "nat (sint (height dim))"
  let ?col = "\<lambda>c. map (\<lambda>j. tileAt panoId zoom c (of_nat j)) [0..<?rows]"
  from Suc(2) have less: "x <s width dim" by (simp add: word_sless_alt)
  then have succ: "sint (x + 1) = sint x + 1" by (rule sint_succ)
  with Suc(2) have n: "n = nat (sint (width dim) - sint (x + 1))" by simp
  from succ Suc(4) have pos: "0 \<le> sint (x + 1)" by simp
  have row: "rowLoop panoId zoom dim x 0 tiles =
      (if length tiles + ?rows \<le> maxInt then Inr (tiles @ ?col x) else Inl GrowSliceLenOutOfRange)"
    using rowLoop_run [OF Suc(3), of panoId zoom dim x 0] by simp
  show ?case
  proof (cases "length tiles + ?rows \<le> maxInt")
    case True
    then have len: "length (tiles @ ?col x) \<le> maxInt" by simp
    have shift: "concat (map (\<lambda>i. ?col (x + of_nat i)) [0..<Suc n]) =
        ?col x @ concat (map (\<lambda>i. ?col (x + 1 + of_nat i)) [0..<n])"
      by (simp add: upt_conv_Cons map_Suc_upt [symmetric] add.assoc comp_def del: upt_Suc)
    have "colLoop panoId zoom dim x tiles = colLoop panoId zoom dim (x + 1) (tiles @ ?col x)"
      using less True row by (subst colLoop.simps) simp
    also note Suc(1) [OF n len pos]
    finally show ?thesis
      using True Suc(2) [symmetric] n [symmetric] shift by (simp add: add.assoc)
  next
    case False
    then have "\<not> length tiles + Suc n * ?rows \<le> maxInt" by simp
    with False less row Suc(2) [symmetric] show ?thesis
      by (subst colLoop.simps) simp
  qed
qed

lemma unat_pow2: "n < 64 \<Longrightarrow> unat (2 ^ n :: goint) = 2 ^ n"
proof -
  assume "n < 64"
  then have "(2::nat) ^ n < 2 ^ 64" by (rule power_strict_increasing) simp
  then have "unat (of_nat (2 ^ n) :: goint) = 2 ^ n" by (rule unat_of_nat_small)
  then show ?thesis by simp
qed

lemma nat_sint_pow2: "n < 63 \<Longrightarrow> nat (sint (2 ^ n :: goint)) = 2 ^ n"
  by (simp add: sint_pow2 nat_power_eq)

lemma pow2_le_maxInt: "k \<le> 62 \<Longrightarrow> (2::nat) ^ k \<le> maxInt"
proof -
  assume "k \<le> 62"
  then have "(2::nat) ^ k \<le> 2 ^ 62" by (rule power_increasing) simp
  also have "\<dots> \<le> maxInt" by (simp add: maxInt_def)
  finally show ?thesis .
qed

lemma getDimensionsFromZoom_small:
  assumes "1 \<le> n" and "n \<le> 62"
  shows "getDimensionsFromZoom (of_nat n) = Inr \<lparr>width = 2 ^ n, height = 2 ^ (n - 1)\<rparr>"
proof -
  have small: "n < 2 ^ 63" "n - 1 < 2 ^ 63"
    using assms(2) by simp_all
  have big: "n < 2 ^ 64" "n - 1 < 2 ^ 64"
    using assms(2) by simp_all
  have pred: "(of_nat n :: goint) - 1 = of_nat (n - 1)"
    using assms(1) by (simp add: of_nat_diff)
  have "\<not> (of_nat n :: goint) <s 0" "\<not> (of_nat (n - 1) :: goint) <s 0"
    using small by (simp_all add: word_sless_alt sint_of_nat_small)
  then show ?thesis
    using big by (simp add: getDimensionsFromZoom_def go_shl_def pred unat_of_nat_small)
qed

lemma getTilesConfig_concat:
  assumes "1 \<le> n" and "n \<le> 22"
  shows "getTilesConfig panoId (of_nat n) =
    Inr (concat (map (\<lambda>i. map (\<lambda>j. tileAt panoId (of_nat n) (of_nat i) (of_nat j))
                        [0..<2 ^ (n - 1)]) [0..<2 ^ n]))"
proof -
  let ?dim = "\<lparr>width = 2 ^ n, height = 2 ^ (n - 1)\<rparr> :: dimensions"
  have dims: "getDimensionsFromZoom (of_nat n) = Inr ?dim"
    using assms by (intro getDimensionsFromZoom_small) simp_all
  have w: "nat (sint (width ?dim)) = 2 ^ n" and h: "nat (sint (height ?dim)) = 2 ^ (n - 1)"
    using assms by (simp_all add: nat_sint_pow2)
  have prod: "width ?dim * height ?dim = 2 ^ (n + (n - 1))"
    by (simp add: power_add)
  have "n + (n - 1) < 63" using assms by simp
  then have "sint (width ?dim * height ?dim) = 2 ^ (n + (n - 1))"
    unfolding prod by (rule sint_pow2)
  then have cap: "\<not> width ?dim * height ?dim <s 0"
    by (simp add: word_sless_alt)
  have "unat (width ?dim * height ?dim) = 2 ^ (n + (n - 1))"
    unfolding prod using \<open>n + (n - 1) < 63\<close> by (simp add: unat_pow2)
  moreover have "(2::nat) ^ 5 * 2 ^ (n + (n - 1)) \<le> 2 ^ 48"
    unfolding power_add [symmetric] by (rule power_increasing) (use assms in simp_all)
  ultimately have room: "\<not> maxAlloc < tileConfig_size * unat (width ?dim * height ?dim)"
    by (simp add: maxAlloc_def tileConfig_size_def)
  have "(2::nat) ^ n * 2 ^ (n - 1) = 2 ^ (n + (n - 1))" by (simp add: power_add)
  moreover have "n + (n - 1) \<le> 62" using assms by simp
  ultimately have fits: "(2::nat) ^ n * 2 ^ (n - 1) \<le> maxInt"
    using pow2_le_maxInt [of "n + (n - 1)"] by simp
  have w0: "nat (sint (width ?dim) - sint (0::goint)) = 2 ^ n"
    using w by simp
  have "colLoop panoId (of_nat n) ?dim 0 [] =
    (if length ([] :: tileConfig list) + nat (sint (width ?dim) - sint (0::goint)) * nat (sint (height ?dim)) \<le> maxInt
     then Inr ([] @ concat (map (\<lambda>i. map (\<lambda>j. tileAt panoId (of_nat n) (0 + of_nat i) (of_nat j))
                 [0..<nat (sint (height ?dim))]) [0..<nat (sint (width ?dim) - sint (0::goint))]))
     else Inl GrowSliceLenOutOfRange)"
    by (rule colLoop_run) simp_all
  also have "\<dots> = Inr (concat (map (\<lambda>i. map (\<lambda>j. tileAt panoId (of_nat n) (of_nat i) (of_nat j))
                        [0..<2 ^ (n - 1)]) [0..<2 ^ n]))"
    unfolding w0 h using fits by simp
  finally have run: "colLoop panoId (of_nat n) ?dim 0 [] =
      Inr (concat (map (\<lambda>i. map (\<lambda>j. tileAt panoId (of_nat n) (of_nat i) (of_nat j))
                        [0..<2 ^ (n - 1)]) [0..<2 ^ n]))" .
  from dims cap room run show ?thesis
    by (simp add: getTilesConfig_def go_make_def)
qed

lemma concat_grid:
  "concat (map (\<lambda>i. map (g i) [0..<k]) [0..<m]) = map (\<lambda>t. g (t div k) (t mod k)) [0..<m * k]"
proof (induction m)
  case 0
  show ?case by simp
next
  case (Suc m)
  have block: "map (\<lambda>t. g (t div k) (t mod k)) [m * k..<m * k + k] = map (g m) [0..<k]"
  proof (rule nth_equalityI)
    show "length (map (\<lambda>t. g (t div k) (t mod k)) [m * k..<m * k + k]) = length (map (g m) [0..<k])"
      by simp
  next
    fix i
    assume "i < length (map (\<lambda>t. g (t div k) (t mod k)) [m * k..<m * k + k])"
    then have i: "i < k" by simp
    then have "(m * k + i) div k = m" "(m * k + i) mod k = i" by simp_all
    with i show "map (\<lambda>t. g (t div k) (t mod k)) [m * k..<m * k + k] ! i = map (g m) [0..<k] ! i"
      by simp
  qed
  have "[0..<m * k + k] = [0..<m * k] @ [m * k..<m * k + k]"
    by (rule upt_add_eq_append) simp
  moreover have "Suc m * k = m * k + k" by simp
  ultimately have "[0..<Suc m * k] = [0..<m * k] @ [m * k..<m * k + k]"
    by (simp only:)
  then have "map (\<lambda>t. g (t div k) (t mod k)) [0..<Suc m * k] =
      map (\<lambda>t. g (t div k) (t mod k)) [0..<m * k] @ map (g m) [0..<k]"
    using block by simp
  with Suc show ?case by simp
qed



lemma sint_pow2_pos: "0 < sint (2 ^ k :: goint) \<Longrightarrow> k < 63"
proof (rule ccontr)
  assume pos: "0 < sint (2 ^ k :: goint)" and "\<not> k < 63"
  then consider "k = 63" | "64 \<le> k" by linarith
  then show False
  proof cases
    case 1
    with pos show False by simp
  next
    case 2
    then have "(2 ^ k :: goint) = 0" by simp
    with pos show False by simp
  qed
qed

lemma getTilesConfig_map:
  assumes "1 \<le> n" and "n \<le> 22"
  shows "getTilesConfig panoId (of_nat n) =
    Inr (map (\<lambda>t. tileAt panoId (of_nat n) (of_nat (t div 2 ^ (n - 1))) (of_nat (t mod 2 ^ (n - 1))))
           [0..<2 ^ n * 2 ^ (n - 1)])"
  by (simp only: getTilesConfig_concat [OF assms] concat_grid)




text \<open>
  Claim C7 (as amended). For every zoom \<open>\<le> 0\<close> the planner returns no descriptor list,
  empty or not: a shift count is negative (\<open>zoom\<close> itself, or \<open>zoom - 1\<close> at zoom 0) and
  the planner panics.
\<close>

theorem getTilesConfig_nonpositive_zoom:
  assumes "zoom \<le>s 0"
  shows "getTilesConfig panoId zoom = Inl NegativeShift"
proof (cases "zoom <s 0")
  case True
  then show ?thesis
    by (simp add: getTilesConfig_def getDimensionsFromZoom_def go_shl_def)
next
  case False
  with assms have "sint zoom = 0" by (simp add: word_sless_alt word_sle_eq)
  then have "zoom = 0" by (metis signed_word_eqI sint_0)
  then show ?thesis
    by (simp add: getTilesConfig_def getDimensionsFromZoom_def go_shl_def word_sless_alt)
qed

theorem getTilesConfig_nonpositive_zoom_witness:
  "(- 3 :: goint) \<le>s 0 \<and> getTilesConfig ''ABC'' (- 3) = Inl NegativeShift"
proof -
  have le: "(- 3 :: goint) \<le>s 0" by (simp add: word_sle_eq)
  from le getTilesConfig_nonpositive_zoom [OF le, of "''ABC''"] show ?thesis by simp
qed

text \<open>At zoom 0 the planner does not return the empty list: it panics.\<close>

theorem getTilesConfig_zoom_0_panics:
  "getTilesConfig ''ABC'' 0 = Inl NegativeShift \<and> getTilesConfig ''ABC'' 0 \<noteq> Inr []"
  by (simp add: getTilesConfig_def getDimensionsFromZoom_def go_shl_def word_sless_alt)

text \<open>What a run of the planner that returns tells about the zoom.\<close>

lemma getTilesConfig_InrD:
  assumes "getTilesConfig panoId zoom = Inr ts"
  shows "\<exists>dim. getDimensionsFromZoom zoom = Inr dim \<and> colLoop panoId zoom dim 0 [] = Inr ts
    \<and> tileConfig_size * unat (width dim * height dim) \<le> maxAlloc"
  using assms
  by (auto simp: getTilesConfig_def go_make_def split: sum.splits if_splits)

lemma colLoop_from_0:
  "colLoop panoId zoom dim 0 [] =
    (if nat (sint (width dim)) * nat (sint (height dim)) \<le> maxInt
     then Inr (map (\<lambda>t. tileAt panoId zoom (of_nat (t div nat (sint (height dim))))
                           (of_nat (t mod nat (sint (height dim)))))
                 [0..<nat (sint (width dim)) * nat (sint (height dim))])
     else Inl GrowSliceLenOutOfRange)"
proof -
  have "colLoop panoId zoom dim 0 [] =
    (if length ([] :: tileConfig list) + nat (sint (width dim) - sint (0::goint)) * nat (sint (height dim)) \<le> maxInt
     then Inr ([] @ concat (map (\<lambda>i. map (\<lambda>j. tileAt panoId zoom (0 + of_nat i) (of_nat j))
                 [0..<nat (sint (height dim))]) [0..<nat (sint (width dim) - sint (0::goint))]))
     else Inl GrowSliceLenOutOfRange)"
    by (rule colLoop_run) simp_all
  then show ?thesis by (simp add: concat_grid)
qed

lemma getTilesConfig_length:
  assumes "getTilesConfig panoId zoom = Inr ts"
  shows "length ts \<le> maxInt"
proof -
  from getTilesConfig_InrD [OF assms] obtain dim where
    "colLoop panoId zoom dim 0 [] = Inr ts" by blast
  then show ?thesis
    by (auto simp: colLoop_from_0 split: if_splits)
qed

lemma getDimensionsFromZoom_InrD:
  assumes "getDimensionsFromZoom zoom = Inr dim"
  shows "0 <s zoom \<and> width dim = 2 ^ unat zoom \<and> height dim = 2 ^ (unat zoom - 1)"
proof -
  from assms have nn: "\<not> zoom <s 0" and pn: "\<not> zoom - 1 <s 0"
    and w: "width dim = push_bit (unat zoom) 1" and h: "height dim = push_bit (unat (zoom - 1)) 1"
    by (auto simp: getDimensionsFromZoom_def go_shl_def split: if_splits)
  have nz: "zoom \<noteq> 0"
  proof
    assume "zoom = 0"
    with pn show False by (simp add: word_sless_alt)
  qed
  with nn have pos: "0 <s zoom"
    by (metis signed.not_less_iff_gr_or_eq)
  from nz have "unat (zoom - 1) = unat zoom - 1"
    by (simp add: unat_minus_one)
  with pos w h show ?thesis by simp
qed

lemma getTilesConfig_nonempty_zoom:
  assumes "getTilesConfig panoId zoom = Inr ts" and "ts \<noteq> []"
  shows "1 \<le> unat zoom \<and> unat zoom \<le> 22"
proof -
  from getTilesConfig_InrD [OF assms(1)] obtain dim where
    dim: "getDimensionsFromZoom zoom = Inr dim" and run: "colLoop panoId zoom dim 0 [] = Inr ts"
    and room: "tileConfig_size * unat (width dim * height dim) \<le> maxAlloc"
    by blast
  let ?n = "unat zoom"
  from getDimensionsFromZoom_InrD [OF dim] have pos: "0 <s zoom"
    and w: "width dim = 2 ^ ?n" and h: "height dim = 2 ^ (?n - 1)"
    by simp_all
  from pos have n1: "1 \<le> ?n"
    by (metis One_nat_def Suc_leI signed.less_irrefl unat_gt_0)
  from run assms(2) have fit: "nat (sint (width dim)) * nat (sint (height dim)) \<le> maxInt"
    and ne: "nat (sint (width dim)) * nat (sint (height dim)) \<noteq> 0"
    by (auto simp: colLoop_from_0 split: if_splits)
  from ne have "0 < sint (width dim)" "0 < sint (height dim)" by simp_all
  then have pw: "0 < sint (2 ^ ?n :: goint)" and ph: "0 < sint (2 ^ (?n - 1) :: goint)"
    unfolding w h by simp_all
  have n63: "?n < 63" and "?n - 1 < 63"
    using pw ph by (simp_all add: sint_pow2_pos)
  then have "nat (sint (width dim)) * nat (sint (height dim)) = 2 ^ ?n * 2 ^ (?n - 1)"
    unfolding w h by (simp add: nat_sint_pow2)
  also have "\<dots> = 2 ^ (?n + (?n - 1))" by (simp add: power_add)
  finally have "(2::nat) ^ (?n + (?n - 1)) \<le> maxInt" using fit by simp
  also have "maxInt < 2 ^ 63" by (simp add: maxInt_def)
  finally have "(2::nat) ^ (?n + (?n - 1)) < 2 ^ 63" .
  then have small: "?n + (?n - 1) < 63" by (rule power_less_imp_less_exp [rotated]) simp
  have "width dim * height dim = 2 ^ (?n + (?n - 1))"
    unfolding w h by (simp add: power_add)
  with small have "unat (width dim * height dim) = 2 ^ (?n + (?n - 1))"
    by (simp add: unat_pow2)
  with room have "(2::nat) ^ 5 * 2 ^ (?n + (?n - 1)) \<le> 2 ^ 48"
    by (simp add: maxAlloc_def tileConfig_size_def)
  then have "(2::nat) ^ (5 + (?n + (?n - 1))) \<le> 2 ^ 48"
    by (simp only: power_add)
  then have "5 + (?n + (?n - 1)) \<le> 48" by (rule power_le_imp_le_exp [rotated]) simp
  with n1 show ?thesis by simp
qed

section \<open>The fetcher\<close>

lemma RLHTTPClient_Do_admitted:
  "limiter_wait env tr Background = None \<Longrightarrow>
   RLHTTPClient_Do env req tr =
     (client_do env (tr @ [LimiterWait Background]) req, tr @ [LimiterWait Background, HttpDo req])"
  by (simp add: RLHTTPClient_Do_def)

lemma RLHTTPClient_Do_refused:
  "limiter_wait env tr Background = Some err \<Longrightarrow>
   RLHTTPClient_Do env req tr = (Inl err, tr @ [LimiterWait Background])"
  by (simp add: RLHTTPClient_Do_def)

text \<open>
  Claim C6 (as amended). Before it issues a request, \<open>RLHTTPClient.Do\<close> waits for the
  limiter, and it waits under the background context, not under the context of the
  request: when the limiter refuses, \<open>Do\<close> returns the limiter's error and the request is
  not issued; when the limiter admits, the request is issued, whatever the request's
  own context is.
\<close>

theorem RLHTTPClient_Do_waits_on_background:
  "(\<forall>err. limiter_wait env tr Background = Some err \<longrightarrow>
      RLHTTPClient_Do env req tr = (Inl err, tr @ [LimiterWait Background]))
   \<and> (limiter_wait env tr Background = None \<longrightarrow>
      RLHTTPClient_Do env req tr =
        (client_do env (tr @ [LimiterWait Background]) req,
         tr @ [LimiterWait Background, HttpDo req]))"
  by (simp add: RLHTTPClient_Do_admitted RLHTTPClient_Do_refused)

theorem RLHTTPClient_Do_waits_on_background_witness:
  "limiter_wait demo_env [] Background = None
   \<and> RLHTTPClient_Do demo_env cancelled_request [] =
       (Inr demo_response, [LimiterWait Background, HttpDo cancelled_request])"
proof -
  have admit: "limiter_wait demo_env [] Background = None"
    by (simp add: demo_env_def)
  from RLHTTPClient_Do_waits_on_background [of demo_env "[]" cancelled_request] admit
  have "RLHTTPClient_Do demo_env cancelled_request [] =
      (client_do demo_env ([] @ [LimiterWait Background]) cancelled_request,
       [] @ [LimiterWait Background, HttpDo cancelled_request])"
    by blast
  with admit show ?thesis by (simp add: demo_env_def)
qed

text \<open>
  The claim as written fails: with a limiter that honours cancellation and a request
  whose context is cancelled, the wait is not cut short and the request is issued.
\<close>

theorem RLHTTPClient_Do_ignores_request_context:
  "req_ctx cancelled_request = Cancelled
   \<and> limiter_wait demo_env [] (req_ctx cancelled_request) = Some (GoError ''context canceled'')
   \<and> RLHTTPClient_Do demo_env cancelled_request [] =
       (Inr demo_response, [LimiterWait Background, HttpDo cancelled_request])"
  by (simp add: RLHTTPClient_Do_def demo_env_def cancelled_request_def)

lemma fetchTile_ok:
  assumes "parse_url env (cfg_url config) = None"
    and "limiter_wait env tr Background = None"
    and "client_do env (tr @ [LimiterWait Background])
           \<lparr>req_method = ''GET'', req_url = cfg_url config, req_ctx = Background\<rparr> = Inr resp"
  shows "fetchTile env config tr =
      (readAll resp,
       tr @ [LimiterWait Background,
             HttpDo \<lparr>req_method = ''GET'', req_url = cfg_url config, req_ctx = Background\<rparr>])"
  using assms by (simp add: fetchTile_def newRequest_def RLHTTPClient_Do_admitted)

text \<open>
  Claim C9. When the request is built, the limiter admits it, the client returns a
  response and the body is read to its end, \<open>fetchTile\<close> returns the whole body, and
  the status code plays no part: with any other status code in the response the result
  is the same.
\<close>

theorem fetchTile_body_whatever_status:
  assumes "parse_url env (cfg_url config) = None"
    and "limiter_wait env tr Background = None"
    and "client_do env (tr @ [LimiterWait Background])
           \<lparr>req_method = ''GET'', req_url = cfg_url config, req_ctx = Background\<rparr> = Inr resp"
    and "resp_body_err resp = None"
  shows "fst (fetchTile env config tr) = Inr (resp_body resp)
    \<and> fst (fetchTile env config tr) = fst (fetchTile
          (env\<lparr>client_do := \<lambda>tr' req. map_sum id (\<lambda>r. r\<lparr>resp_status := code\<rparr>) (client_do env tr' req)\<rparr>)
          config tr)"
proof -
  let ?req = "\<lparr>req_method = ''GET'', req_url = cfg_url config, req_ctx = Background\<rparr>"
  let ?env = "env\<lparr>client_do := \<lambda>tr' req. map_sum id (\<lambda>r. r\<lparr>resp_status := code\<rparr>) (client_do env tr' req)\<rparr>"
  have 1: "fst (fetchTile env config tr) = Inr (resp_body resp)"
    using fetchTile_ok [OF assms(1-3)] assms(4) by (simp add: readAll_def)
  have "client_do ?env (tr @ [LimiterWait Background]) ?req = Inr (resp\<lparr>resp_status := code\<rparr>)"
    using assms(3) by simp
  moreover have "parse_url ?env (cfg_url config) = None" "limiter_wait ?env tr Background = None"
    using assms(1,2) by simp_all
  ultimately have "fst (fetchTile ?env config tr) = readAll (resp\<lparr>resp_status := code\<rparr>)"
    using fetchTile_ok [of ?env config tr "resp\<lparr>resp_status := code\<rparr>"] by simp
  with assms(4) have 2: "fst (fetchTile ?env config tr) = Inr (resp_body resp)"
    by (simp add: readAll_def)
  from 1 2 show ?thesis by simp
qed

theorem fetchTile_body_whatever_status_witness:
  "resp_status demo_response = 404
   \<and> fst (fetchTile demo_env (tileAt ''ABC'' 1 0 0) []) = Inr [1, 2, 3]"
proof -
  let ?cfg = "tileAt ''ABC'' 1 0 0"
  have "parse_url demo_env (cfg_url ?cfg) = None"
    and "limiter_wait demo_env [] Background = None"
    and "client_do demo_env ([] @ [LimiterWait Background])
           \<lparr>req_method = ''GET'', req_url = cfg_url ?cfg, req_ctx = Background\<rparr> = Inr demo_response"
    and "resp_body_err demo_response = None"
    by (simp_all add: demo_env_def demo_response_def)
  from fetchTile_body_whatever_status [OF this]
  have "fst (fetchTile demo_env ?cfg []) = Inr (resp_body demo_response)" by blast
  then show ?thesis by (simp add: demo_response_def)
qed

section \<open>The downloader\<close>

lemma fetchLoop_append:
  "fetchLoop env n (pre @ rest) results tr =
     (case fetchLoop env n pre results tr of
        (Inl f, tr') \<Rightarrow> (Inl f, tr')
      | (Inr rs, tr') \<Rightarrow> fetchLoop env n rest rs tr')"
proof (induction pre arbitrary: results tr)
  case Nil
  show ?case by simp
next
  case (Cons t pre)
  show ?case
    by (simp add: Cons.IH split: prod.splits sum.splits)
qed

lemma fetchLoop_Inr:
  assumes "fetchLoop env n cfgs results tr = (Inr out, tr')"
  shows "\<exists>new. out = results @ new \<and> length new = length cfgs
    \<and> map (\<lambda>t. (td_x t, td_y t)) new = map (\<lambda>c. (cfg_x c, cfg_y c)) cfgs"
  using assms
proof (induction cfgs arbitrary: results tr)
  case Nil
  then show ?case by simp
next
  case (Cons t cfgs)
  from Cons.prems obtain bs tr1 where
    step: "fetchStep env n t tr = (Inr bs, tr1)"
    and rest: "fetchLoop env n cfgs
        (results @ [\<lparr>td_x = cfg_x t, td_y = cfg_y t, td_data = bs\<rparr>]) tr1 = (Inr out, tr')"
    by (auto simp: go_append_def split: prod.splits sum.splits if_splits)
  from Cons.IH [OF rest] obtain new where
    "out = (results @ [\<lparr>td_x = cfg_x t, td_y = cfg_y t, td_data = bs\<rparr>]) @ new"
    "length new = length cfgs"
    "map (\<lambda>t. (td_x t, td_y t)) new = map (\<lambda>c. (cfg_x c, cfg_y c)) cfgs"
    by blast
  then have "out = results @ (\<lparr>td_x = cfg_x t, td_y = cfg_y t, td_data = bs\<rparr> # new)
    \<and> length (\<lparr>td_x = cfg_x t, td_y = cfg_y t, td_data = bs\<rparr> # new) = length (t # cfgs)
    \<and> map (\<lambda>t. (td_x t, td_y t)) (\<lparr>td_x = cfg_x t, td_y = cfg_y t, td_data = bs\<rparr> # new)
        = map (\<lambda>c. (cfg_x c, cfg_y c)) (t # cfgs)"
    by simp
  then show ?case by blast
qed

text \<open>A failure of the loop is the failure of one fetch, the first that fails.\<close>

lemma fetchLoop_Inl:
  assumes "fetchLoop env n cfgs results tr = (Inl f, tr')"
    and "length results + length cfgs \<le> maxInt"
  shows "\<exists>pre t post rs tr_k err. cfgs = pre @ t # post
    \<and> fetchLoop env n pre results tr = (Inr rs, tr_k)
    \<and> fetchStep env n t tr_k = (Inl err, tr') \<and> f = Err err"
  using assms
proof (induction cfgs arbitrary: results tr)
  case Nil
  then show ?case by simp
next
  case (Cons t cfgs)
  obtain r tr1 where step: "fetchStep env n t tr = (r, tr1)" by (cases "fetchStep env n t tr")
  show ?case
  proof (cases r)
    case (Inl err)
    with Cons.prems(1) step have "f = Err err" "tr' = tr1" by simp_all
    with step Inl have "t # cfgs = [] @ t # cfgs
        \<and> fetchLoop env n [] results tr = (Inr results, tr)
        \<and> fetchStep env n t tr = (Inl err, tr') \<and> f = Err err"
      by simp
    then show ?thesis by blast
  next
    case (Inr bs)
    let ?rs = "results @ [\<lparr>td_x = cfg_x t, td_y = cfg_y t, td_data = bs\<rparr>]"
    from Cons.prems(2) have room: "length results < maxInt" by simp
    with Cons.prems(1) step Inr have rest: "fetchLoop env n cfgs ?rs tr1 = (Inl f, tr')"
      by (simp add: go_append_def)
    from Cons.prems(2) have "length ?rs + length cfgs \<le> maxInt" by simp
    from Cons.IH [OF rest this] obtain pre u post rs tr_k err where
      split: "cfgs = pre @ u # post"
      and pre: "fetchLoop env n pre ?rs tr1 = (Inr rs, tr_k)"
      and fail: "fetchStep env n u tr_k = (Inl err, tr')" "f = Err err"
      by blast
    from pre step Inr room have "fetchLoop env n (t # pre) results tr = (Inr rs, tr_k)"
      by (simp add: go_append_def)
    with split fail have "t # cfgs = (t # pre) @ u # post
        \<and> fetchLoop env n (t # pre) results tr = (Inr rs, tr_k)
        \<and> fetchStep env n u tr_k = (Inl err, tr') \<and> f = Err err"
      by simp
    then show ?thesis by blast
  qed
qed

text \<open>When a fetch fails, the loop ends there: what follows the descriptor plays no part.\<close>

lemma fetchLoop_abort:
  assumes "fetchLoop env n pre results tr = (Inr rs, tr_k)"
    and "fetchStep env n t tr_k = (Inl err, tr_f)"
  shows "fetchLoop env n (pre @ t # post) results tr = (Inl (Err err), tr_f)"
  using assms by (simp add: fetchLoop_append)

text \<open>The prefixes of a successful run are successful runs.\<close>

lemma fetchLoop_prefix:
  assumes "fetchLoop env n cfgs [] tr = (Inr tiles, tr')" and "i < length cfgs"
  shows "\<exists>tr_i tr_i'. fetchLoop env n (take i cfgs) [] tr = (Inr (take i tiles), tr_i)
    \<and> fetchStep env n (cfgs ! i) tr_i = (Inr (td_data (tiles ! i)), tr_i')"
proof -
  have split: "cfgs = take i cfgs @ cfgs ! i # drop (Suc i) cfgs"
    using assms(2) by (simp add: id_take_nth_drop)
  obtain r tr_i where pre: "fetchLoop env n (take i cfgs) [] tr = (r, tr_i)"
    by (cases "fetchLoop env n (take i cfgs) [] tr")
  from assms(1) have whole: "fetchLoop env n (take i cfgs @ cfgs ! i # drop (Suc i) cfgs) [] tr = (Inr tiles, tr')"
    using split by simp
  from whole pre obtain rs where r: "r = Inr rs"
    and rest: "fetchLoop env n (cfgs ! i # drop (Suc i) cfgs) rs tr_i = (Inr tiles, tr')"
    by (cases r) (simp_all add: fetchLoop_append)
  from fetchLoop_Inr [OF pre [unfolded r]] obtain new where
    rs: "rs = new" "length new = length (take i cfgs)" by auto
  with assms(2) have len: "length rs = i" by simp
  from rest obtain bs tr_i' where
    step: "fetchStep env n (cfgs ! i) tr_i = (Inr bs, tr_i')"
    and tail: "fetchLoop env n (drop (Suc i) cfgs)
        (rs @ [\<lparr>td_x = cfg_x (cfgs ! i), td_y = cfg_y (cfgs ! i), td_data = bs\<rparr>]) tr_i' = (Inr tiles, tr')"
    by (auto simp: go_append_def split: prod.splits sum.splits if_splits)
  from fetchLoop_Inr [OF tail] obtain more where
    tiles: "tiles = (rs @ [\<lparr>td_x = cfg_x (cfgs ! i), td_y = cfg_y (cfgs ! i), td_data = bs\<rparr>]) @ more"
    by blast
  with len have "take i tiles = rs" "td_data (tiles ! i) = bs"
    by (simp_all add: nth_append)
  with pre r step show ?thesis by blast
qed

lemma RLHTTPClient_Do_cong:
  assumes "limiter_wait env' = limiter_wait env" and "client_do env' = client_do env"
  shows "RLHTTPClient_Do env' req tr = RLHTTPClient_Do env req tr"
  unfolding RLHTTPClient_Do_def assms by (rule refl)

lemma fetchStep_cong:
  assumes "parse_url env' = parse_url env" and "limiter_wait env' = limiter_wait env"
    and "client_do env' = client_do env"
  shows "fetchStep env' n t tr = fetchStep env n t tr"
  unfolding fetchStep_def fetchTile_def newRequest_def assms(1) RLHTTPClient_Do_cong [OF assms(2,3)]
  by (rule refl)

lemma fetchLoop_cong:
  assumes "parse_url env' = parse_url env" and "limiter_wait env' = limiter_wait env"
    and "client_do env' = client_do env"
  shows "fetchLoop env' n cfgs results tr = fetchLoop env n cfgs results tr"
  by (induction cfgs arbitrary: results tr)
     (simp_all add: fetchStep_cong [OF assms] split: prod.splits sum.splits)

lemma getTiles_cong:
  assumes "parse_url env' = parse_url env" and "limiter_wait env' = limiter_wait env"
    and "client_do env' = client_do env"
  shows "getTiles env' panoId zoom tr = getTiles env panoId zoom tr"
  by (simp add: getTiles_def fetchLoop_cong [OF assms] split: sum.splits)

lemma main_getTiles_failed:
  assumes "getTiles env panoId_main defaultZoom [VipsStartup] = (Inl f, tr')"
  shows "main env = (ExitPanic (as_panic f), tr' @ [VipsShutdown])"
  using assms by (simp add: main_def)

text \<open>
  Claim C3. Let the planner return the descriptors \<open>cfgs\<close>. A run of \<open>getTiles\<close> that
  succeeds returns one tile per descriptor, in the planner's order, each with the
  coordinates of its descriptor and the bytes its own fetch returned, the fetches made
  one after the other in that order. When the fetch of a descriptor fails after the
  fetches before it succeeded, \<open>getTiles\<close> returns that error and no tiles, in the
  state the failed fetch left: nothing is done for the descriptors after it. Every
  failure of \<open>getTiles\<close> is of this kind. In \<open>main\<close>, such a failure ends the program
  with the panic of that error, and the run is the same whatever the imaging library
  and the file system would have done: the compositor is never entered.
\<close>

theorem getTiles_all_or_first_error:
  assumes "getTilesConfig panoId zoom = Inr cfgs"
  shows
   "(\<forall>tiles tr'. getTiles env panoId zoom tr = (Inr tiles, tr') \<longrightarrow>
        length tiles = length cfgs
      \<and> map (\<lambda>t. (td_x t, td_y t)) tiles = map (\<lambda>c. (cfg_x c, cfg_y c)) cfgs
      \<and> (\<forall>i < length cfgs. \<exists>tr_i tr_i'.
            fetchLoop env (length cfgs) (take i cfgs) [] tr = (Inr (take i tiles), tr_i)
          \<and> fetchStep env (length cfgs) (cfgs ! i) tr_i = (Inr (td_data (tiles ! i)), tr_i')))
    \<and> (\<forall>pre t post rs tr_k err tr_f.
          cfgs = pre @ t # post
        \<and> fetchLoop env (length cfgs) pre [] tr = (Inr rs, tr_k)
        \<and> fetchStep env (length cfgs) t tr_k = (Inl err, tr_f)
        \<longrightarrow> getTiles env panoId zoom tr = (Inl (Err err), tr_f))
    \<and> (\<forall>f tr'. getTiles env panoId zoom tr = (Inl f, tr') \<longrightarrow>
          (\<exists>pre t post rs tr_k err. cfgs = pre @ t # post
            \<and> fetchLoop env (length cfgs) pre [] tr = (Inr rs, tr_k)
            \<and> fetchStep env (length cfgs) t tr_k = (Inl err, tr') \<and> f = Err err))
    \<and> (\<forall>f tr'. getTiles env panoId_main defaultZoom [VipsStartup] = (Inl f, tr') \<longrightarrow>
          main env = (ExitPanic (as_panic f), tr' @ [VipsShutdown])
        \<and> (\<forall>env'. parse_url env' = parse_url env \<and> limiter_wait env' = limiter_wait env
              \<and> client_do env' = client_do env \<longrightarrow> main env' = main env))"
proof -
  let ?n = "length cfgs"
  have run: "getTiles env panoId zoom tr = fetchLoop env ?n cfgs [] tr"
    using assms by (simp add: getTiles_def)
  have ok: "length tiles = length cfgs
      \<and> map (\<lambda>t. (td_x t, td_y t)) tiles = map (\<lambda>c. (cfg_x c, cfg_y c)) cfgs
      \<and> (\<forall>i < length cfgs. \<exists>tr_i tr_i'.
            fetchLoop env ?n (take i cfgs) [] tr = (Inr (take i tiles), tr_i)
          \<and> fetchStep env ?n (cfgs ! i) tr_i = (Inr (td_data (tiles ! i)), tr_i'))"
    if "getTiles env panoId zoom tr = (Inr tiles, tr')" for tiles tr'
  proof -
    from that run have loop: "fetchLoop env ?n cfgs [] tr = (Inr tiles, tr')" by simp
    from fetchLoop_Inr [OF loop] have "length tiles = length cfgs"
      "map (\<lambda>t. (td_x t, td_y t)) tiles = map (\<lambda>c. (cfg_x c, cfg_y c)) cfgs"
      by auto
    moreover have "\<forall>i < length cfgs. \<exists>tr_i tr_i'.
            fetchLoop env ?n (take i cfgs) [] tr = (Inr (take i tiles), tr_i)
          \<and> fetchStep env ?n (cfgs ! i) tr_i = (Inr (td_data (tiles ! i)), tr_i')"
      using fetchLoop_prefix [OF loop] by blast
    ultimately show ?thesis by blast
  qed
  have abort: "getTiles env panoId zoom tr = (Inl (Err err), tr_f)"
    if "cfgs = pre @ t # post" "fetchLoop env ?n pre [] tr = (Inr rs, tr_k)"
      "fetchStep env ?n t tr_k = (Inl err, tr_f)" for pre t post rs tr_k err tr_f
    using fetchLoop_abort [OF that(2,3), of post] that(1) run by simp
  have first: "\<exists>pre t post rs tr_k err. cfgs = pre @ t # post
            \<and> fetchLoop env ?n pre [] tr = (Inr rs, tr_k)
            \<and> fetchStep env ?n t tr_k = (Inl err, tr') \<and> f = Err err"
    if "getTiles env panoId zoom tr = (Inl f, tr')" for f tr'
  proof -
    from that run have "fetchLoop env ?n cfgs [] tr = (Inl f, tr')" by simp
    moreover have "length ([] :: tileData list) + length cfgs \<le> maxInt"
      using getTilesConfig_length [OF assms] by simp
    ultimately show ?thesis by (rule fetchLoop_Inl)
  qed
  have pipeline: "main env = (ExitPanic (as_panic f), tr' @ [VipsShutdown])
        \<and> (\<forall>env'. parse_url env' = parse_url env \<and> limiter_wait env' = limiter_wait env
              \<and> client_do env' = client_do env \<longrightarrow> main env' = main env)"
    if fail: "getTiles env panoId_main defaultZoom [VipsStartup] = (Inl f, tr')" for f tr'
  proof -
    have "main env' = main env"
      if same: "parse_url env' = parse_url env" "limiter_wait env' = limiter_wait env"
        "client_do env' = client_do env" for env'
    proof -
      from fail getTiles_cong [OF same] have
        "getTiles env' panoId_main defaultZoom [VipsStartup] = (Inl f, tr')" by simp
      then show ?thesis
        by (simp only: main_getTiles_failed main_getTiles_failed [OF fail])
    qed
    with main_getTiles_failed [OF fail] show ?thesis by blast
  qed
  from ok abort first pipeline show ?thesis by blast
qed

section \<open>The compositor\<close>

lemma paste_size [simp]:
  "img_width (paste c s x0 y0) = img_width c" "img_height (paste c s x0 y0) = img_height c"
  by (simp_all add: paste_def)

lemma inside_paste [simp]: "inside (paste c s x0 y0) i j = inside c i j"
  by (simp add: inside_def)

lemma place_size [simp]:
  "img_width (place env t c) = img_width c" "img_height (place env t c) = img_height c"
  by (simp_all add: place_def split: sum.splits)

lemma fold_place_size [simp]:
  "img_width (fold (place env) tiles c) = img_width c"
  "img_height (fold (place env) tiles c) = img_height c"
  by (induction tiles arbitrary: c) simp_all

lemma inside_fold_place [simp]: "inside (fold (place env) tiles c) i j = inside c i j"
  by (simp add: inside_def)

lemma place_pixel:
  "img_pixel (place env t c) i j =
     (if inside c i j \<and> tile_covers env t i j then tile_pixel env t i j else img_pixel c i j)"
  by (simp add: place_def tile_covers_def tile_pixel_def paste_def split: sum.splits)

lemma fold_place_uncovered:
  assumes "\<not> inside c i j \<or> (\<forall>t \<in> set tiles. \<not> tile_covers env t i j)"
  shows "img_pixel (fold (place env) tiles c) i j = img_pixel c i j"
  using assms
proof (induction tiles rule: rev_induct)
  case Nil
  show ?case by simp
next
  case (snoc u tiles)
  from snoc.prems have "\<not> inside c i j \<or> (\<forall>t \<in> set tiles. \<not> tile_covers env t i j)"
    and "\<not> inside c i j \<or> \<not> tile_covers env u i j"
    by auto
  with snoc.IH show ?case by (simp add: place_pixel) blast
qed

lemma no_overlap_subset:
  "no_overlap env ys \<Longrightarrow> set xs \<subseteq> set ys \<Longrightarrow> no_overlap env xs"
  unfolding no_overlap_def by blast

lemma covered_twice_overlap:
  "tile_covers env a i j \<Longrightarrow> tile_covers env b i j \<Longrightarrow> tiles_overlap env a b"
  by (auto simp: tile_covers_def tiles_overlap_def covers_def split: sum.splits)

lemma no_overlapD:
  "no_overlap env tiles \<Longrightarrow> a \<in> set tiles \<Longrightarrow> b \<in> set tiles \<Longrightarrow> a \<noteq> b \<Longrightarrow>
   tile_covers env a i j \<Longrightarrow> \<not> tile_covers env b i j"
  unfolding no_overlap_def using covered_twice_overlap [of env a i j b] by blast

lemma fold_place_covered:
  assumes "no_overlap env tiles" and "t \<in> set tiles" and "inside c i j" and "tile_covers env t i j"
  shows "img_pixel (fold (place env) tiles c) i j = tile_pixel env t i j"
  using assms(1,2)
proof (induction tiles rule: rev_induct)
  case Nil
  then show ?case by simp
next
  case (snoc u tiles)
  show ?case
  proof (cases "u = t")
    case True
    with assms(3,4) show ?thesis by (simp add: place_pixel)
  next
    case False
    with snoc.prems(2) have t: "t \<in> set tiles" by simp
    from snoc.prems(1) have sub: "no_overlap env tiles"
      by (rule no_overlap_subset) auto
    have "t \<in> set (tiles @ [u])" "u \<in> set (tiles @ [u])" using t by simp_all
    from no_overlapD [OF snoc.prems(1) this] False assms(4) have "\<not> tile_covers env u i j"
      by blast
    with snoc.IH [OF sub t] show ?thesis by (simp add: place_pixel)
  qed
qed

lemma fold_place_set:
  assumes "no_overlap env tiles" and "set tiles' = set tiles"
  shows "fold (place env) tiles' c = fold (place env) tiles c"
proof -
  have no': "no_overlap env tiles'"
    using assms(1) by (rule no_overlap_subset) (simp add: assms(2))
  have "img_pixel (fold (place env) tiles' c) i j = img_pixel (fold (place env) tiles c) i j" for i j
  proof (cases "inside c i j \<and> (\<exists>t \<in> set tiles. tile_covers env t i j)")
    case True
    then obtain t where t: "t \<in> set tiles" "tile_covers env t i j" and ins: "inside c i j" by blast
    from t(1) assms(2) have t': "t \<in> set tiles'" by simp
    show ?thesis
      by (simp only: fold_place_covered [OF assms(1) t(1) ins t(2)]
          fold_place_covered [OF no' t' ins t(2)])
  next
    case False
    then have a: "\<not> inside c i j \<or> (\<forall>t \<in> set tiles. \<not> tile_covers env t i j)" by blast
    with assms(2) have b: "\<not> inside c i j \<or> (\<forall>t \<in> set tiles'. \<not> tile_covers env t i j)" by simp
    show ?thesis
      by (simp only: fold_place_uncovered [OF a] fold_place_uncovered [OF b])
  qed
  then have "img_pixel (fold (place env) tiles' c) = img_pixel (fold (place env) tiles c)"
    by (intro ext)
  then show ?thesis by (simp add: image.equality)
qed

lemma pasteLoop_Inr:
  assumes "insert_contract env" and "pasteLoop env tiles pano = Inr out"
  shows "out = fold (place env) tiles pano"
  using assms(2)
proof (induction tiles arbitrary: pano)
  case Nil
  then show ?case by simp
next
  case (Cons t tiles)
  from Cons.prems obtain img pano' where
    dec: "vips_decode env (td_data t) = Inr img"
    and ins: "vips_insert env pano img (tileSize * td_x t) (tileSize * td_y t) False (ColorRGBA 0 0 0 0) = Inr pano'"
    and rest: "pasteLoop env tiles pano' = Inr out"
    by (auto split: sum.splits)
  from assms(1) ins have "pano' = paste pano img (sint (tileSize * td_x t)) (sint (tileSize * td_y t))"
    unfolding insert_contract_def by blast
  with dec have "pano' = place env t pano" by (simp add: place_def)
  with Cons.IH [OF rest] show ?case by simp
qed

lemma sint_tileSize [simp]: "sint tileSize = 512"
  by (simp add: tileSize_def)

lemma sint_tileSize_mult:
  assumes "- (2 ^ 53) \<le> sint x" and "sint x < 2 ^ 53"
  shows "sint (tileSize * x) = 512 * sint x"
proof -
  have "sint (tileSize * x) = signed_take_bit 63 (sint tileSize * sint x)"
    using sint_word_ariths(3) [of tileSize x] by simp
  also have "\<dots> = signed_take_bit 63 (512 * sint x)" by simp
  also have "\<dots> = 512 * sint x"
    by (rule signed_take_bit_int_eq_self) (use assms in simp_all)
  finally show ?thesis .
qed

lemma sint_tileSize_pow2:
  assumes "n \<le> 53"
  shows "sint (tileSize * 2 ^ n) = 512 * 2 ^ n"
proof -
  have "tileSize * 2 ^ n = (2 ^ (n + 9) :: goint)"
    by (simp add: tileSize_def power_add)
  moreover have "n + 9 < 63" using assms by simp
  ultimately have "sint (tileSize * 2 ^ n) = 2 ^ (n + 9)"
    by (simp only: sint_pow2)
  then show ?thesis by (simp add: power_add)
qed

lemma assembleCanvas_Inr:
  assumes "black_contract env" and "insert_contract env" and "1 \<le> n" and "n \<le> 53"
    and "assembleCanvas env tiles (of_nat n) = Inr canvas"
  shows "canvas = fold (place env) tiles (blank (512 * 2 ^ n) (512 * 2 ^ (n - 1)))"
proof -
  have dim: "getDimensionsFromZoom (of_nat n) = Inr \<lparr>width = 2 ^ n, height = 2 ^ (n - 1)\<rparr>"
    using assms(3,4) by (intro getDimensionsFromZoom_small) simp_all
  from assms(5) dim obtain pano where
    black: "vips_black env (tileSize * 2 ^ n) (tileSize * 2 ^ (n - 1)) = Inr pano"
    and loop: "pasteLoop env tiles pano = Inr canvas"
    by (auto simp: assembleCanvas_def split: sum.splits)
  from assms(1) black have "pano = blank (sint (tileSize * 2 ^ n)) (sint (tileSize * 2 ^ (n - 1)))"
    unfolding black_contract_def by blast
  moreover have "n - 1 \<le> 53" using assms(4) by simp
  ultimately have "pano = blank (512 * 2 ^ n) (512 * 2 ^ (n - 1))"
    using assms(4) by (simp only: sint_tileSize_pow2)
  with pasteLoop_Inr [OF assms(2) loop] show ?thesis by simp
qed

lemma blank_fields [simp]:
  "img_width (blank w h) = w" "img_height (blank w h) = h" "img_pixel (blank w h) i j = Pixel 0 0 0"
  by (simp_all add: blank_def)

text \<open>Tiles that fit never make the insertion fail.\<close>

lemma pasteLoop_no_insert_failure:
  assumes "insert_fails_only_outside env" and "insert_contract env" and "square_tiles env tiles"
    and "\<forall>t \<in> set tiles.
          0 \<le> sint (tileSize * td_x t) \<and> sint (tileSize * td_x t) + 512 \<le> img_width pano
        \<and> 0 \<le> sint (tileSize * td_y t) \<and> sint (tileSize * td_y t) + 512 \<le> img_height pano"
  shows "pasteLoop env tiles pano \<noteq> Inl (InsertFailed err)"
  using assms(3,4)
proof (induction tiles arbitrary: pano)
  case Nil
  show ?case by simp
next
  case (Cons t tiles)
  show ?case
  proof (cases "vips_decode env (td_data t)")
    case (Inl e)
    then show ?thesis by simp
  next
    case (Inr img)
    let ?x = "tileSize * td_x t" and ?y = "tileSize * td_y t"
    from Cons.prems(1) Inr have size: "img_width img = 512" "img_height img = 512"
      by (simp_all add: square_tiles_def)
    with Cons.prems(2) have fit: "fits pano img (sint ?x) (sint ?y)"
      by (simp add: fits_def)
    show ?thesis
    proof (cases "vips_insert env pano img ?x ?y False (ColorRGBA 0 0 0 0)")
      case (Inl e)
      with assms(1) fit show ?thesis
        unfolding insert_fails_only_outside_def by blast
    next
      case ins: (Inr pano')
      with assms(2) have pano': "pano' = paste pano img (sint ?x) (sint ?y)"
        unfolding insert_contract_def by blast
      from Cons.prems(1) have sq: "square_tiles env tiles"
        by (simp add: square_tiles_def)
      from Cons.prems(2) pano' have
        "\<forall>t \<in> set tiles.
            0 \<le> sint (tileSize * td_x t) \<and> sint (tileSize * td_x t) + 512 \<le> img_width pano'
          \<and> 0 \<le> sint (tileSize * td_y t) \<and> sint (tileSize * td_y t) + 512 \<le> img_height pano'"
        by simp
      from Cons.IH [OF sq this] Inr ins show ?thesis by simp
    qed
  qed
qed

lemma planner_tile_geometry:
  assumes "getTilesConfig panoId zoom = Inr cfgs" and "c \<in> set cfgs"
  shows "\<exists>dim. getDimensionsFromZoom zoom = Inr dim
    \<and> sint (tileSize * width dim) = 512 * 2 ^ unat zoom
    \<and> sint (tileSize * height dim) = 512 * 2 ^ (unat zoom - 1)
    \<and> 0 \<le> sint (cfg_x c) \<and> sint (cfg_x c) < 2 ^ unat zoom
    \<and> 0 \<le> sint (cfg_y c) \<and> sint (cfg_y c) < 2 ^ (unat zoom - 1)
    \<and> sint (tileSize * cfg_x c) = 512 * sint (cfg_x c)
    \<and> sint (tileSize * cfg_y c) = 512 * sint (cfg_y c)"
proof -
  let ?n = "unat zoom"
  let ?k = "(2::nat) ^ (?n - 1)" and ?m = "(2::nat) ^ ?n"
  from assms(2) have "cfgs \<noteq> []" by auto
  from getTilesConfig_nonempty_zoom [OF assms(1) this] have n: "1 \<le> ?n" "?n \<le> 22"
    by simp_all
  have zoom: "zoom = of_nat ?n" by simp
  have dim: "getDimensionsFromZoom zoom = Inr \<lparr>width = 2 ^ ?n, height = 2 ^ (?n - 1)\<rparr>"
    using getDimensionsFromZoom_small [of ?n] n by simp
  have "getTilesConfig panoId (of_nat ?n) =
      Inr (map (\<lambda>t. tileAt panoId (of_nat ?n) (of_nat (t div ?k)) (of_nat (t mod ?k))) [0..<?m * ?k])"
    using n by (rule getTilesConfig_map)
  with assms(1) have "cfgs =
      map (\<lambda>t. tileAt panoId zoom (of_nat (t div ?k)) (of_nat (t mod ?k))) [0..<?m * ?k]"
    by simp
  with assms(2) obtain t where t: "t < ?m * ?k"
    and c: "c = tileAt panoId zoom (of_nat (t div ?k)) (of_nat (t mod ?k))"
    by auto
  define i where "i = t div ?k"
  define j where "j = t mod ?k"
  from t have i: "i < ?m" unfolding i_def by (simp add: less_mult_imp_div_less)
  have j: "j < ?k" unfolding j_def by simp
  have "?m \<le> 2 ^ 31" by (rule power_increasing) (use n in simp_all)
  with i have i31: "i < 2 ^ 31" by (rule less_le_trans)
  have "?k \<le> 2 ^ 31" by (rule power_increasing) (use n in simp_all)
  with j have j31: "j < 2 ^ 31" by (rule less_le_trans)
  from i31 have sx: "sint (of_nat i :: goint) = int i" by (intro sint_of_nat_small) simp
  from j31 have sy: "sint (of_nat j :: goint) = int j" by (intro sint_of_nat_small) simp
  from c have cx: "cfg_x c = of_nat i" and cy: "cfg_y c = of_nat j"
    by (simp_all add: tileAt_def i_def j_def)
  have "int i < 2 ^ 53" "int j < 2 ^ 53" using i31 j31 by simp_all
  then have mx: "sint (tileSize * cfg_x c) = 512 * sint (cfg_x c)"
    and my: "sint (tileSize * cfg_y c) = 512 * sint (cfg_y c)"
    unfolding cx cy by (simp_all add: sint_tileSize_mult sx sy)
  have w: "sint (tileSize * (2 ^ ?n :: goint)) = 512 * 2 ^ ?n"
    and h: "sint (tileSize * (2 ^ (?n - 1) :: goint)) = 512 * 2 ^ (?n - 1)"
    using n by (simp_all add: sint_tileSize_pow2)
  have "int i < int ?m" "int j < int ?k" using i j by simp_all
  then have "sint (cfg_x c) < 2 ^ ?n" "sint (cfg_y c) < 2 ^ (?n - 1)"
    unfolding cx cy sx sy by simp_all
  moreover have "0 \<le> sint (cfg_x c)" "0 \<le> sint (cfg_y c)"
    unfolding cx cy sx sy by simp_all
  ultimately show ?thesis using dim w h mx my by simp
qed

lemma planner_tiles_fit:
  assumes "getTilesConfig panoId zoom = Inr cfgs"
  shows "\<exists>dim. getDimensionsFromZoom zoom = Inr dim
    \<and> (\<forall>c \<in> set cfgs.
          sint (tileSize * width dim) = 512 * 2 ^ unat zoom
        \<and> sint (tileSize * height dim) = 512 * 2 ^ (unat zoom - 1)
        \<and> sint (tileSize * cfg_x c) = 512 * sint (cfg_x c)
        \<and> sint (tileSize * cfg_y c) = 512 * sint (cfg_y c)
        \<and> 0 \<le> sint (tileSize * cfg_x c)
        \<and> sint (tileSize * cfg_x c) + 512 \<le> sint (tileSize * width dim)
        \<and> 0 \<le> sint (tileSize * cfg_y c)
        \<and> sint (tileSize * cfg_y c) + 512 \<le> sint (tileSize * height dim))
    \<and> (\<forall>env tiles pano err.
          black_contract env \<and> insert_contract env \<and> insert_fails_only_outside env
        \<and> square_tiles env tiles
        \<and> map (\<lambda>t. (td_x t, td_y t)) tiles = map (\<lambda>c. (cfg_x c, cfg_y c)) cfgs
        \<and> vips_black env (tileSize * width dim) (tileSize * height dim) = Inr pano
        \<longrightarrow> pasteLoop env tiles pano \<noteq> Inl (InsertFailed err))"
proof -
  from getTilesConfig_InrD [OF assms] obtain dim where
    dim: "getDimensionsFromZoom zoom = Inr dim" by blast
  have geo: "sint (tileSize * width dim) = 512 * 2 ^ unat zoom
        \<and> sint (tileSize * height dim) = 512 * 2 ^ (unat zoom - 1)
        \<and> sint (tileSize * cfg_x c) = 512 * sint (cfg_x c)
        \<and> sint (tileSize * cfg_y c) = 512 * sint (cfg_y c)
        \<and> 0 \<le> sint (tileSize * cfg_x c)
        \<and> sint (tileSize * cfg_x c) + 512 \<le> sint (tileSize * width dim)
        \<and> 0 \<le> sint (tileSize * cfg_y c)
        \<and> sint (tileSize * cfg_y c) + 512 \<le> sint (tileSize * height dim)"
    if c: "c \<in> set cfgs" for c
  proof -
    from planner_tile_geometry [OF assms c] dim have
      w: "sint (tileSize * width dim) = 512 * 2 ^ unat zoom"
      and h: "sint (tileSize * height dim) = 512 * 2 ^ (unat zoom - 1)"
      and x: "0 \<le> sint (cfg_x c)" "sint (cfg_x c) < 2 ^ unat zoom"
      and y: "0 \<le> sint (cfg_y c)" "sint (cfg_y c) < 2 ^ (unat zoom - 1)"
      and mx: "sint (tileSize * cfg_x c) = 512 * sint (cfg_x c)"
      and my: "sint (tileSize * cfg_y c) = 512 * sint (cfg_y c)"
      by auto
    from x(2) have "sint (cfg_x c) + 1 \<le> 2 ^ unat zoom" by simp
    then have "512 * (sint (cfg_x c) + 1) \<le> 512 * 2 ^ unat zoom" by (rule mult_left_mono) simp
    moreover from y(2) have "sint (cfg_y c) + 1 \<le> 2 ^ (unat zoom - 1)" by simp
    then have "512 * (sint (cfg_y c) + 1) \<le> 512 * 2 ^ (unat zoom - 1)" by (rule mult_left_mono) simp
    ultimately show ?thesis using w h x(1) y(1) mx my by simp
  qed
  have run: "pasteLoop env tiles pano \<noteq> Inl (InsertFailed err)"
    if env: "black_contract env" "insert_contract env" "insert_fails_only_outside env"
      and sq: "square_tiles env tiles"
      and coords: "map (\<lambda>t. (td_x t, td_y t)) tiles = map (\<lambda>c. (cfg_x c, cfg_y c)) cfgs"
      and black: "vips_black env (tileSize * width dim) (tileSize * height dim) = Inr pano"
    for env tiles pano err
  proof -
    from env(1) black have
      "pano = blank (sint (tileSize * width dim)) (sint (tileSize * height dim))"
      unfolding black_contract_def by blast
    then have pano: "img_width pano = sint (tileSize * width dim)"
      "img_height pano = sint (tileSize * height dim)"
      by simp_all
    have "0 \<le> sint (tileSize * td_x t) \<and> sint (tileSize * td_x t) + 512 \<le> img_width pano
        \<and> 0 \<le> sint (tileSize * td_y t) \<and> sint (tileSize * td_y t) + 512 \<le> img_height pano"
      if t: "t \<in> set tiles" for t
    proof -
      from t have "(td_x t, td_y t) \<in> set (map (\<lambda>t. (td_x t, td_y t)) tiles)" by simp
      with coords obtain c where c: "c \<in> set cfgs" "td_x t = cfg_x c" "td_y t = cfg_y c"
        by auto
      from geo [OF c(1)] show ?thesis by (simp add: pano c(2,3))
    qed
    then have "\<forall>t \<in> set tiles.
          0 \<le> sint (tileSize * td_x t) \<and> sint (tileSize * td_x t) + 512 \<le> img_width pano
        \<and> 0 \<le> sint (tileSize * td_y t) \<and> sint (tileSize * td_y t) + 512 \<le> img_height pano"
      by blast
    with env(3,2) sq show ?thesis by (rule pasteLoop_no_insert_failure)
  qed
  from dim geo run show ?thesis by blast
qed

text \<open>
  Claim C5. Whatever the zoom, every descriptor the planner returns is pasted at an
  offset \<open>(tileSize * column, tileSize * row)\<close> that is computed without overflow, and a
  tile of \<open>tileSize\<close> by \<open>tileSize\<close> pixels at that offset lies within the canvas of
  \<open>tileSize * 2 ^ zoom\<close> by \<open>tileSize * 2 ^ (zoom - 1)\<close> pixels. Hence, with an imaging
  library that refuses an insertion only when the inserted image leaves the canvas, the
  compositor given tiles with the planner's coordinates never takes the error return of
  the insertion.
\<close>

theorem planner_tiles_fit_canvas:
  assumes "getTilesConfig panoId zoom = Inr cfgs"
  shows "\<exists>dim. getDimensionsFromZoom zoom = Inr dim
    \<and> (\<forall>c \<in> set cfgs.
          sint (tileSize * width dim) = 512 * 2 ^ unat zoom
        \<and> sint (tileSize * height dim) = 512 * 2 ^ (unat zoom - 1)
        \<and> sint (tileSize * cfg_x c) = 512 * sint (cfg_x c)
        \<and> sint (tileSize * cfg_y c) = 512 * sint (cfg_y c)
        \<and> 0 \<le> sint (tileSize * cfg_x c)
        \<and> sint (tileSize * cfg_x c) + 512 \<le> sint (tileSize * width dim)
        \<and> 0 \<le> sint (tileSize * cfg_y c)
        \<and> sint (tileSize * cfg_y c) + 512 \<le> sint (tileSize * height dim))
    \<and> (\<forall>env tiles pano err.
          black_contract env \<and> insert_contract env \<and> insert_fails_only_outside env
        \<and> square_tiles env tiles
        \<and> map (\<lambda>t. (td_x t, td_y t)) tiles = map (\<lambda>c. (cfg_x c, cfg_y c)) cfgs
        \<and> vips_black env (tileSize * width dim) (tileSize * height dim) = Inr pano
        \<longrightarrow> pasteLoop env tiles pano \<noteq> Inl (InsertFailed err))"
  using assms by (rule planner_tiles_fit)

text \<open>The example environment meets what is expected of the imaging library.\<close>

lemma demo_black_contract: "black_contract demo_env"
  by (simp add: black_contract_def demo_env_def)

lemma demo_insert_contract: "insert_contract demo_env"
  by (simp add: insert_contract_def demo_env_def)

lemma demo_insert_fails_only_outside: "insert_fails_only_outside demo_env"
  by (simp add: insert_fails_only_outside_def demo_env_def)

lemma demo_decode [simp]:
  "vips_decode demo_env (b # bs) = Inr (demo_tile b)"
  by (simp add: demo_env_def)

lemma demo_tile_fields [simp]:
  "img_width (demo_tile b) = 512" "img_height (demo_tile b) = 512"
  "img_pixel (demo_tile b) i j = Pixel (unat b) (unat b) (unat b)"
  by (simp_all add: demo_tile_def)

lemma demo_square_tiles: "square_tiles demo_env tiles"
  by (auto simp: square_tiles_def demo_env_def split: list.splits)

text \<open>
  Claim C2 (as amended). Let the imaging library make black canvases of the size asked
  for and insert without blending. For every zoom \<open>n\<close> from 1 to 53 and every list of
  tiles, a canvas the compositor assembles has \<open>512 * 2 ^ n\<close> by \<open>512 * 2 ^ (n - 1)\<close>
  pixels and is the black canvas with the tiles pasted in list order, each at the
  offset \<open>(tileSize * column, tileSize * row)\<close> in Go integers (the exact products for
  coordinates below \<open>2 ^ 53\<close> in absolute value); a pixel no tile covers is black. When
  no pixel is covered by two different tiles, every pixel of the canvas a tile covers
  shows that tile's pixel, and every list with the same tiles gives the same canvas.
\<close>

theorem assembleCanvas_placement:
  assumes "black_contract env" and "insert_contract env" and "1 \<le> n" and "n \<le> 53"
    and "assembleCanvas env tiles (of_nat n) = Inr canvas"
  shows "img_width canvas = 512 * 2 ^ n \<and> img_height canvas = 512 * 2 ^ (n - 1)
    \<and> canvas = fold (place env) tiles (blank (512 * 2 ^ n) (512 * 2 ^ (n - 1)))
    \<and> (\<forall>t \<in> set tiles.
          (- (2 ^ 53) \<le> sint (td_x t) \<and> sint (td_x t) < 2 ^ 53
             \<longrightarrow> sint (tileSize * td_x t) = 512 * sint (td_x t))
        \<and> (- (2 ^ 53) \<le> sint (td_y t) \<and> sint (td_y t) < 2 ^ 53
             \<longrightarrow> sint (tileSize * td_y t) = 512 * sint (td_y t)))
    \<and> (\<forall>i j. (\<forall>t \<in> set tiles. \<not> tile_covers env t i j) \<longrightarrow> img_pixel canvas i j = Pixel 0 0 0)
    \<and> (no_overlap env tiles \<longrightarrow>
          (\<forall>t \<in> set tiles. \<forall>i j. inside canvas i j \<and> tile_covers env t i j
              \<longrightarrow> img_pixel canvas i j = tile_pixel env t i j)
        \<and> (\<forall>tiles' canvas'.
              set tiles' = set tiles \<and> assembleCanvas env tiles' (of_nat n) = Inr canvas'
              \<longrightarrow> canvas' = canvas))"
proof -
  let ?blank = "blank (512 * 2 ^ n) (512 * 2 ^ (n - 1))"
  have canvas: "canvas = fold (place env) tiles ?blank"
    using assms by (rule assembleCanvas_Inr)
  then have size: "img_width canvas = 512 * 2 ^ n" "img_height canvas = 512 * 2 ^ (n - 1)"
    by simp_all
  have offs: "\<forall>t \<in> set tiles.
          (- (2 ^ 53) \<le> sint (td_x t) \<and> sint (td_x t) < 2 ^ 53
             \<longrightarrow> sint (tileSize * td_x t) = 512 * sint (td_x t))
        \<and> (- (2 ^ 53) \<le> sint (td_y t) \<and> sint (td_y t) < 2 ^ 53
             \<longrightarrow> sint (tileSize * td_y t) = 512 * sint (td_y t))"
    by (simp add: sint_tileSize_mult)
  have bg: "img_pixel canvas i j = Pixel 0 0 0" if "\<forall>t \<in> set tiles. \<not> tile_covers env t i j" for i j
    unfolding canvas using fold_place_uncovered [of ?blank i j tiles env] that by simp
  have px: "img_pixel canvas i j = tile_pixel env t i j"
    if "no_overlap env tiles" "t \<in> set tiles" "inside canvas i j" "tile_covers env t i j" for t i j
    using that unfolding canvas by (simp add: fold_place_covered)
  have perm: "canvas' = canvas"
    if no: "no_overlap env tiles" and same: "set tiles' = set tiles"
      and run: "assembleCanvas env tiles' (of_nat n) = Inr canvas'" for tiles' canvas'
  proof -
    from assms(1-4) run have "canvas' = fold (place env) tiles' ?blank"
      by (rule assembleCanvas_Inr)
    with fold_place_set [OF no same] canvas show ?thesis by simp
  qed
  from size canvas offs bg px perm show ?thesis by blast
qed

lemma demo_no_overlap: "no_overlap demo_env demo_tiles"
  by (simp add: no_overlap_def demo_tiles_def tiles_overlap_def tileSize_def)

lemma demo_assemble:
  "assembleCanvas demo_env demo_tiles 1 =
     Inr (fold (place demo_env) demo_tiles (blank 1024 512))"
  by (simp add: assembleCanvas_def getDimensionsFromZoom_def go_shl_def word_sless_alt
      demo_env_def demo_tiles_def tileSize_def fits_def blank_def place_def demo_tile_def paste_def)

theorem assembleCanvas_placement_witness:
  "\<exists>canvas. assembleCanvas demo_env demo_tiles 1 = Inr canvas
     \<and> img_width canvas = 1024 \<and> img_height canvas = 512
     \<and> img_pixel canvas 5 5 = Pixel 7 7 7
     \<and> img_pixel canvas 600 10 = Pixel 9 9 9
     \<and> assembleCanvas demo_env (rev demo_tiles) 1 = Inr canvas"
proof -
  let ?canvas = "fold (place demo_env) demo_tiles (blank 1024 512)"
  let ?a = "\<lparr>td_x = 0, td_y = 0, td_data = [7]\<rparr>" and ?b = "\<lparr>td_x = 1, td_y = 0, td_data = [9]\<rparr>"
  have run: "assembleCanvas demo_env demo_tiles (of_nat 1) = Inr ?canvas"
    using demo_assemble by simp
  have rev_run: "assembleCanvas demo_env (rev demo_tiles) (of_nat 1) =
      Inr (fold (place demo_env) (rev demo_tiles) (blank 1024 512))"
    by (simp add: assembleCanvas_def getDimensionsFromZoom_def go_shl_def word_sless_alt
        demo_env_def demo_tiles_def tileSize_def fits_def blank_def place_def demo_tile_def paste_def)
  have n: "(1::nat) \<le> 1" "(1::nat) \<le> 53" by simp_all
  note inst = assembleCanvas_placement [OF demo_black_contract demo_insert_contract n run]
  from inst have size: "img_width ?canvas = 512 * 2 ^ 1" "img_height ?canvas = 512 * 2 ^ (1 - 1)"
    by blast+
  from inst demo_no_overlap have
    px: "\<forall>t \<in> set demo_tiles. \<forall>i j. inside ?canvas i j \<and> tile_covers demo_env t i j
            \<longrightarrow> img_pixel ?canvas i j = tile_pixel demo_env t i j"
    and perm: "\<forall>tiles' canvas'. set tiles' = set demo_tiles
            \<and> assembleCanvas demo_env tiles' (of_nat 1) = Inr canvas' \<longrightarrow> canvas' = ?canvas"
    by blast+
  have "?a \<in> set demo_tiles" "inside ?canvas 5 5" "tile_covers demo_env ?a 5 5"
    by (simp_all add: demo_tiles_def inside_def tile_covers_def covers_def tileSize_def)
  with px have "img_pixel ?canvas 5 5 = tile_pixel demo_env ?a 5 5" by blast
  then have a: "img_pixel ?canvas 5 5 = Pixel 7 7 7" by (simp add: tile_pixel_def)
  have "?b \<in> set demo_tiles" "inside ?canvas 600 10" "tile_covers demo_env ?b 600 10"
    by (simp_all add: demo_tiles_def inside_def tile_covers_def covers_def tileSize_def)
  with px have "img_pixel ?canvas 600 10 = tile_pixel demo_env ?b 600 10" by blast
  then have b: "img_pixel ?canvas 600 10 = Pixel 9 9 9" by (simp add: tile_pixel_def)
  have "set (rev demo_tiles) = set demo_tiles" by simp
  with perm rev_run have "fold (place demo_env) (rev demo_tiles) (blank 1024 512) = ?canvas"
    by blast
  with rev_run have r: "assembleCanvas demo_env (rev demo_tiles) 1 = Inr ?canvas" by simp
  from run size a b r show ?thesis by simp
qed

text \<open>
  The claim as written, for every zoom and every tile set, fails where the Go integers
  overflow: at zoom 54 the width \<open>512 * 2 ^ 54\<close> asked for is negative and no canvas is
  made; a tile in column \<open>2 ^ 55\<close> is pasted at offset 0.
\<close>

theorem assembleCanvas_wraps:
  "sint (tileSize * (2 ^ 54 :: goint)) < 0
   \<and> assembleCanvas demo_env [] 54 = Inl (Err (GoError ''black: bad size''))
   \<and> sint (tileSize * (2 ^ 55 :: goint)) = 0
   \<and> map_sum id (\<lambda>canvas. img_pixel canvas 0 0)
        (assembleCanvas demo_env [\<lparr>td_x = 2 ^ 55, td_y = 0, td_data = [7]\<rparr>] 1) = Inr (Pixel 7 7 7)"
  by (simp add: assembleCanvas_def getDimensionsFromZoom_def go_shl_def word_sless_alt
      demo_env_def tileSize_def fits_def blank_def demo_tile_def paste_def inside_def covers_def)

theorem planner_tiles_fit_canvas_witness:
  "getTilesConfig ''ABC'' 1 = Inr [tileAt ''ABC'' 1 0 0, tileAt ''ABC'' 1 1 0]
   \<and> getDimensionsFromZoom 1 = Inr \<lparr>width = 2, height = 1\<rparr>
   \<and> sint (tileSize * cfg_x (tileAt ''ABC'' 1 1 0)) + 512 \<le> sint (tileSize * (2::goint))
   \<and> vips_black demo_env (tileSize * 2) (tileSize * 1) = Inr (blank 1024 512)
   \<and> pasteLoop demo_env demo_tiles (blank 1024 512) \<noteq> Inl (InsertFailed (GoError ''insert: out of bounds''))"
proof -
  let ?cfgs = "[tileAt ''ABC'' 1 0 0, tileAt ''ABC'' 1 1 0]"
  have plan: "getTilesConfig ''ABC'' 1 = Inr ?cfgs"
    by (simp add: getTilesConfig_def getDimensionsFromZoom_def go_shl_def go_make_def word_sless_alt
        maxAlloc_def tileConfig_size_def colLoop.simps rowLoop.simps go_append_def maxInt_def)
  have dim: "getDimensionsFromZoom 1 = Inr \<lparr>width = 2, height = 1\<rparr>"
    by (simp add: getDimensionsFromZoom_def go_shl_def word_sless_alt)
  have black: "vips_black demo_env (tileSize * 2) (tileSize * 1) = Inr (blank 1024 512)"
    by (simp add: demo_env_def tileSize_def word_sless_alt)
  have coords: "map (\<lambda>t. (td_x t, td_y t)) demo_tiles = map (\<lambda>c. (cfg_x c, cfg_y c)) ?cfgs"
    by (simp add: demo_tiles_def tileAt_def)
  from planner_tiles_fit_canvas [OF plan] dim have
    geo: "\<forall>c \<in> set ?cfgs. sint (tileSize * cfg_x c) + 512 \<le> sint (tileSize * width \<lparr>width = 2, height = 1\<rparr>)"
    and safe: "\<forall>env tiles pano err.
          black_contract env \<and> insert_contract env \<and> insert_fails_only_outside env
        \<and> square_tiles env tiles
        \<and> map (\<lambda>t. (td_x t, td_y t)) tiles = map (\<lambda>c. (cfg_x c, cfg_y c)) ?cfgs
        \<and> vips_black env (tileSize * width \<lparr>width = 2, height = 1\<rparr>)
             (tileSize * height \<lparr>width = 2, height = 1\<rparr>) = Inr pano
        \<longrightarrow> pasteLoop env tiles pano \<noteq> Inl (InsertFailed err)"
    by auto
  from geo have g: "sint (tileSize * cfg_x (tileAt ''ABC'' 1 1 0)) + 512 \<le> sint (tileSize * (2::goint))"
    by simp
  from safe demo_black_contract demo_insert_contract demo_insert_fails_only_outside
    demo_square_tiles [of demo_tiles] coords black
  have "pasteLoop demo_env demo_tiles (blank 1024 512)
      \<noteq> Inl (InsertFailed (GoError ''insert: out of bounds''))"
    by simp
  with plan dim g black show ?thesis by simp
qed

section \<open>Runs in the example environment\<close>

lemma failing_env_fields [simp]:
  "parse_url (failing_env u) = (\<lambda>u. None)"
  "limiter_wait (failing_env u) tr Background = None"
  "client_do (failing_env u) tr req =
     (if req_url req = u then Inl (GoError ''connection reset'') else Inr demo_response)"
  by (simp_all add: failing_env_def demo_env_def)

lemma demo_env_fields [simp]:
  "parse_url demo_env = (\<lambda>u. None)"
  "limiter_wait demo_env tr Background = None"
  "client_do demo_env tr req = Inr demo_response"
  by (simp_all add: demo_env_def)

lemma readAll_demo [simp]: "readAll demo_response = Inr [1, 2, 3]"
  by (simp add: readAll_def demo_response_def)

lemma fetchStep_run:
  assumes "parse_url env (cfg_url c) = None" and "limiter_wait env (tr @ [progress_line ''[Fetching]'' c n]) Background = None"
  shows "fetchStep env n c tr =
    (case client_do env (tr @ [progress_line ''[Fetching]'' c n, LimiterWait Background])
            \<lparr>req_method = ''GET'', req_url = cfg_url c, req_ctx = Background\<rparr> of
       Inl err \<Rightarrow> Inl err
     | Inr resp \<Rightarrow> readAll resp,
     tr @ [progress_line ''[Fetching]'' c n, LimiterWait Background,
           HttpDo \<lparr>req_method = ''GET'', req_url = cfg_url c, req_ctx = Background\<rparr>,
           progress_line ''[Done]'' c n])"
  using assms
  by (simp add: fetchStep_def fetchTile_def newRequest_def RLHTTPClient_Do_admitted split: sum.splits)

lemma demo_fetchStep:
  "fetchStep demo_env n c tr =
    (Inr [1, 2, 3],
     tr @ [progress_line ''[Fetching]'' c n, LimiterWait Background,
           HttpDo \<lparr>req_method = ''GET'', req_url = cfg_url c, req_ctx = Background\<rparr>,
           progress_line ''[Done]'' c n])"
  by (simp add: fetchStep_run)

lemma demo_fetchLoop:
  assumes "length results + length cfgs \<le> maxInt"
  shows "\<exists>tr'. fetchLoop demo_env n cfgs results tr =
    (Inr (results @ map (\<lambda>c. \<lparr>td_x = cfg_x c, td_y = cfg_y c, td_data = [1, 2, 3]\<rparr>) cfgs), tr')"
  using assms
proof (induction cfgs arbitrary: results tr)
  case Nil
  show ?case by simp
next
  case (Cons c cfgs)
  let ?td = "\<lparr>td_x = cfg_x c, td_y = cfg_y c, td_data = [1, 2, 3]\<rparr>"
  from Cons.prems have room: "length results < maxInt"
    and rest: "length (results @ [?td]) + length cfgs \<le> maxInt" by simp_all
  from Cons.IH [OF rest] room show ?case
    by (simp add: demo_fetchStep go_append_def)
qed

lemma demo_getTiles:
  assumes "getTilesConfig panoId zoom = Inr cfgs"
  shows "\<exists>tr'. getTiles demo_env panoId zoom tr =
    (Inr (map (\<lambda>c. \<lparr>td_x = cfg_x c, td_y = cfg_y c, td_data = [1, 2, 3]\<rparr>) cfgs), tr')"
proof -
  have "length ([] :: tileData list) + length cfgs \<le> maxInt"
    using getTilesConfig_length [OF assms] by simp
  from demo_fetchLoop [OF this] assms show ?thesis
    by (simp add: getTiles_def)
qed

lemma pasteLoop_DecodeFailedD:
  "pasteLoop env tiles pano = Inl (DecodeFailed err) \<Longrightarrow>
   \<exists>t \<in> set tiles. vips_decode env (td_data t) = Inl err"
  by (induction tiles arbitrary: pano) (auto split: sum.splits)

lemma demo_compositePano:
  assumes "getTilesConfig panoId zoom = Inr cfgs" and "1 \<le> unat zoom" and "unat zoom \<le> 31"
    and "tiles = map (\<lambda>c. \<lparr>td_x = cfg_x c, td_y = cfg_y c, td_data = [1, 2, 3]\<rparr>) cfgs"
  shows "\<exists>pano. compositePano demo_env tiles zoom = Inr pano"
proof -
  let ?n = "unat zoom"
  have zoom: "zoom = of_nat ?n" by simp
  have dim: "getDimensionsFromZoom zoom = Inr \<lparr>width = 2 ^ ?n, height = 2 ^ (?n - 1)\<rparr>"
    using getDimensionsFromZoom_small [of ?n] assms(2,3) by simp
  let ?dim = "\<lparr>width = 2 ^ ?n, height = 2 ^ (?n - 1)\<rparr> :: dimensions"
  have w: "sint (tileSize * width ?dim) = 512 * 2 ^ ?n"
    and h: "sint (tileSize * height ?dim) = 512 * 2 ^ (?n - 1)"
    using assms(3) by (simp_all add: sint_tileSize_pow2)
  then have "0 <s tileSize * width ?dim" "0 <s tileSize * height ?dim"
    by (simp_all add: word_sless_alt)
  then obtain pano where black:
    "vips_black demo_env (tileSize * width ?dim) (tileSize * height ?dim) = Inr pano"
    by (simp add: demo_env_def)
  have coords: "map (\<lambda>t. (td_x t, td_y t)) tiles = map (\<lambda>c. (cfg_x c, cfg_y c)) cfgs"
    by (simp add: assms(4) comp_def)
  from planner_tiles_fit [OF assms(1)] dim have
    "\<forall>env tiles pano err.
          black_contract env \<and> insert_contract env \<and> insert_fails_only_outside env
        \<and> square_tiles env tiles
        \<and> map (\<lambda>t. (td_x t, td_y t)) tiles = map (\<lambda>c. (cfg_x c, cfg_y c)) cfgs
        \<and> vips_black env (tileSize * width ?dim) (tileSize * height ?dim) = Inr pano
        \<longrightarrow> pasteLoop env tiles pano \<noteq> Inl (InsertFailed err)"
    by auto
  with demo_black_contract demo_insert_contract demo_insert_fails_only_outside
    demo_square_tiles [of tiles] coords black
  have no_ins: "pasteLoop demo_env tiles pano \<noteq> Inl (InsertFailed err)" for err
    by blast
  have no_dec: "pasteLoop demo_env tiles pano \<noteq> Inl (DecodeFailed err)" for err
  proof
    assume "pasteLoop demo_env tiles pano = Inl (DecodeFailed err)"
    from pasteLoop_DecodeFailedD [OF this] show False
      by (auto simp: assms(4))
  qed
  obtain canvas where loop: "pasteLoop demo_env tiles pano = Inr canvas"
  proof (cases "pasteLoop demo_env tiles pano")
    case (Inl f)
    with no_ins no_dec have False by (cases f) blast+
    then show ?thesis ..
  next
    case (Inr canvas)
    with that show ?thesis .
  qed
  from dim black loop have "assembleCanvas demo_env tiles zoom = Inr canvas"
    by (simp add: assembleCanvas_def)
  moreover have "trimPano demo_env canvas = Inr canvas"
    by (simp add: trimPano_def demo_env_def)
  ultimately show ?thesis by (simp add: compositePano_def)
qed

section \<open>The pipeline\<close>

lemma pasteLoop_write_file [simp]:
  "pasteLoop (env\<lparr>write_file := writer\<rparr>) tiles pano = pasteLoop env tiles pano"
  by (induction tiles arbitrary: pano) (simp_all split: sum.splits)

lemma compositePano_write_file [simp]:
  "compositePano (env\<lparr>write_file := writer\<rparr>) tiles zoom = compositePano env tiles zoom"
  by (simp add: compositePano_def assembleCanvas_def trimPano_def split: sum.splits)

lemma getTiles_write_file [simp]:
  "getTiles (env\<lparr>write_file := writer\<rparr>) panoId zoom tr = getTiles env panoId zoom tr"
  by (rule getTiles_cong) simp_all

text \<open>
  Claim C10. When the download, the composition and the export succeed, the program
  writes the file and ends normally, and the answer of the file system to the write
  plays no part: the run is the same whatever \<open>write_file\<close> answers, a failure
  included.
\<close>

theorem main_ignores_write_error:
  assumes "getTiles env panoId_main defaultZoom [VipsStartup] = (Inr tiles, tr)"
    and "compositePano env tiles defaultZoom = Inr pano"
    and "vips_export env pano = Inr imageBytes"
  shows "main env = (ExitOK, tr @ [FileWrite ''pano.jpg'' imageBytes, VipsShutdown])
    \<and> main (env\<lparr>write_file := writer\<rparr>) = main env"
proof -
  have 1: "main env = (ExitOK, tr @ [FileWrite ''pano.jpg'' imageBytes, VipsShutdown])"
    using assms by (simp add: main_def)
  have "main (env\<lparr>write_file := writer\<rparr>) = (ExitOK, tr @ [FileWrite ''pano.jpg'' imageBytes, VipsShutdown])"
    using assms by (simp add: main_def)
  with 1 show ?thesis by simp
qed

lemma planner_defaultZoom:
  "getTilesConfig panoId defaultZoom =
     Inr (map (\<lambda>t. tileAt panoId defaultZoom (of_nat (t div 8)) (of_nat (t mod 8))) [0..<128])"
proof -
  have "(1::nat) \<le> 4" "(4::nat) \<le> 22" by simp_all
  from getTilesConfig_map [OF this, of panoId] show ?thesis
    by (simp add: defaultZoom_def)
qed

theorem main_ignores_write_error_witness:
  "\<exists>tiles tr pano.
     getTiles demo_env panoId_main defaultZoom [VipsStartup] = (Inr tiles, tr)
   \<and> compositePano demo_env tiles defaultZoom = Inr pano
   \<and> vips_export demo_env pano = Inr [255, 216]
   \<and> write_file demo_env tr ''pano.jpg'' [255, 216] = Some (GoError ''permission denied'')
   \<and> main demo_env = (ExitOK, tr @ [FileWrite ''pano.jpg'' [255, 216], VipsShutdown])"
proof -
  let ?cfgs = "map (\<lambda>t. tileAt panoId_main defaultZoom (of_nat (t div 8)) (of_nat (t mod 8))) [0..<128]"
  let ?tiles = "map (\<lambda>c. \<lparr>td_x = cfg_x c, td_y = cfg_y c, td_data = [1, 2, 3]\<rparr>) ?cfgs"
  note plan = planner_defaultZoom [of panoId_main]
  from demo_getTiles [OF plan, of "[VipsStartup]"] obtain tr where
    tiles: "getTiles demo_env panoId_main defaultZoom [VipsStartup] = (Inr ?tiles, tr)"
    by blast
  have "1 \<le> unat defaultZoom" "unat defaultZoom \<le> 31" by (simp_all add: defaultZoom_def)
  from demo_compositePano [OF plan this refl] obtain pano where
    pano: "compositePano demo_env ?tiles defaultZoom = Inr pano" by blast
  have export: "vips_export demo_env pano = Inr [255, 216]"
    by (simp add: demo_env_def)
  have wr: "write_file demo_env tr ''pano.jpg'' [255, 216] = Some (GoError ''permission denied'')"
    by (simp add: demo_env_def)
  from main_ignores_write_error [OF tiles pano export] have
    "main demo_env = (ExitOK, tr @ [FileWrite ''pano.jpg'' [255, 216], VipsShutdown])"
    by blast
  with tiles pano export wr show ?thesis by blast
qed

lemma upt_128: "[0..<128] = 0 # 1 # [2..<128]"
  by (simp add: upt_conv_Cons)

theorem getTiles_all_or_first_error_witness:
  "getTilesConfig ''ABC'' 1 = Inr [tileAt ''ABC'' 1 0 0, tileAt ''ABC'' 1 1 0]
   \<and> fst (getTiles demo_env ''ABC'' 1 []) =
       Inr [\<lparr>td_x = 0, td_y = 0, td_data = [1, 2, 3]\<rparr>, \<lparr>td_x = 1, td_y = 0, td_data = [1, 2, 3]\<rparr>]
   \<and> main (failing_env (makePanoUrl panoId_main defaultZoom 0 1)) =
       (ExitPanic (PanicValue (GoError ''connection reset'')),
        [VipsStartup,
         progress_line ''[Fetching]'' (tileAt panoId_main defaultZoom 0 0) 128,
         LimiterWait Background,
         HttpDo \<lparr>req_method = ''GET'', req_url = makePanoUrl panoId_main defaultZoom 0 0,
                 req_ctx = Background\<rparr>,
         progress_line ''[Done]'' (tileAt panoId_main defaultZoom 0 0) 128,
         progress_line ''[Fetching]'' (tileAt panoId_main defaultZoom 0 1) 128,
         LimiterWait Background,
         HttpDo \<lparr>req_method = ''GET'', req_url = makePanoUrl panoId_main defaultZoom 0 1,
                 req_ctx = Background\<rparr>,
         progress_line ''[Done]'' (tileAt panoId_main defaultZoom 0 1) 128,
         VipsShutdown])"
proof -
  let ?small = "[tileAt ''ABC'' 1 0 0, tileAt ''ABC'' 1 1 0]"
  have small: "getTilesConfig ''ABC'' 1 = Inr ?small"
    by (simp add: getTilesConfig_def getDimensionsFromZoom_def go_shl_def go_make_def word_sless_alt
        maxAlloc_def tileConfig_size_def colLoop.simps rowLoop.simps go_append_def maxInt_def)
  from demo_getTiles [OF small, of "[]"] obtain tr where
    run: "getTiles demo_env ''ABC'' 1 [] =
      (Inr (map (\<lambda>c. \<lparr>td_x = cfg_x c, td_y = cfg_y c, td_data = [1, 2, 3]\<rparr>) ?small), tr)"
    by blast
  then have ok: "fst (getTiles demo_env ''ABC'' 1 []) =
      Inr [\<lparr>td_x = 0, td_y = 0, td_data = [1, 2, 3]\<rparr>, \<lparr>td_x = 1, td_y = 0, td_data = [1, 2, 3]\<rparr>]"
    by (simp add: tileAt_def)
  let ?p = panoId_main and ?z = defaultZoom
  let ?u = "makePanoUrl ?p ?z 0 1"
  let ?env = "failing_env ?u"
  let ?f = "\<lambda>t. tileAt ?p ?z (of_nat (t div 8)) (of_nat (t mod 8))"
  let ?cfgs = "map ?f [0..<128]"
  let ?c0 = "tileAt ?p ?z 0 0" and ?c1 = "tileAt ?p ?z 0 1"
  have plan: "getTilesConfig ?p ?z = Inr ?cfgs" by (rule planner_defaultZoom)
  have split: "?cfgs = [?c0] @ ?c1 # map ?f [2..<128]"
    by (simp add: upt_128)
  have len: "length ?cfgs = 128" by simp
  have other: "makePanoUrl ?p ?z 0 0 \<noteq> ?u"
    using makePanoUrl_inj [of ?p ?z 0 0 ?p ?z 0 1] by auto
  let ?tr1 = "[VipsStartup,
         progress_line ''[Fetching]'' ?c0 128, LimiterWait Background,
         HttpDo \<lparr>req_method = ''GET'', req_url = makePanoUrl ?p ?z 0 0, req_ctx = Background\<rparr>,
         progress_line ''[Done]'' ?c0 128]"
  let ?tr2 = "?tr1 @ [progress_line ''[Fetching]'' ?c1 128, LimiterWait Background,
         HttpDo \<lparr>req_method = ''GET'', req_url = ?u, req_ctx = Background\<rparr>,
         progress_line ''[Done]'' ?c1 128]"
  have pre: "fetchLoop ?env (length ?cfgs) [?c0] [] [VipsStartup] =
      (Inr [\<lparr>td_x = 0, td_y = 0, td_data = [1, 2, 3]\<rparr>], ?tr1)"
    unfolding len using other
    by (simp add: fetchStep_run go_append_def maxInt_def tileAt_def)
  have step: "fetchStep ?env (length ?cfgs) ?c1 ?tr1 = (Inl (GoError ''connection reset''), ?tr2)"
    unfolding len by (simp add: fetchStep_run tileAt_def)
  note inst = getTiles_all_or_first_error [OF plan, of ?env "[VipsStartup]"]
  from inst split pre step have
    fail: "getTiles ?env ?p ?z [VipsStartup] = (Inl (Err (GoError ''connection reset'')), ?tr2)"
    by blast
  with inst have "main ?env = (ExitPanic (as_panic (Err (GoError ''connection reset''))), ?tr2 @ [VipsShutdown])"
    by blast
  then have "main ?env = (ExitPanic (PanicValue (GoError ''connection reset'')), ?tr2 @ [VipsShutdown])"
    by (simp add: as_panic_def)
  with small ok show ?thesis by simp
qed


section \<open>The rate limit\<close>

lemma guarded_append:
  "guarded env before (a @ b) \<longleftrightarrow> guarded env before a \<and> guarded env (before @ a) b"
  by (induction a arbitrary: before) auto

lemma admissions_append:
  "admissions env before (a @ b) = admissions env before a + admissions env (before @ a) b"
  by (induction a arbitrary: before) auto

lemma follows_admission_snoc [simp]:
  "follows_admission env (tr @ [e]) = admitted env tr e"
  by (simp add: follows_admission_def)

lemma follows_admissionD:
  assumes "follows_admission env tr"
  shows "\<exists>before w. tr = before @ [w] \<and> admitted env before w"
proof (cases tr rule: rev_cases)
  case Nil
  with assms show ?thesis by (simp add: follows_admission_def)
next
  case (snoc before w)
  with assms show ?thesis by simp
qed

lemma admitted_not_request: "admitted env before e \<Longrightarrow> \<not> is_request e"
  by (cases e) (simp_all add: admitted_def is_request_def)

lemma monotone_clockD:
  "monotone_clock clk full \<Longrightarrow> full = a @ b @ c \<Longrightarrow> clk a \<le> clk (a @ b)"
  unfolding monotone_clock_def by blast

lemma limiter_spacedD:
  "limiter_spaced env clk interval full \<Longrightarrow> full = a @ w # b @ w' # c \<Longrightarrow>
   admitted env a w \<Longrightarrow> admitted env (a @ w # b) w' \<Longrightarrow>
   clk (a @ [w]) + interval \<le> clk (a @ w # b @ [w'])"
  unfolding limiter_spaced_def by blast

text \<open>After an admission, every further admission takes one more interval.\<close>

lemma since_admission:
  assumes "monotone_clock clk full" and "limiter_spaced env clk interval full"
    and "full = a @ w # b @ ext" and "admitted env a w"
  shows "clk (a @ [w]) + admissions env (a @ w # b) ext * interval \<le> clk full"
  using assms(3,4)
proof (induction ext arbitrary: a w b)
  case Nil
  then have "full = (a @ [w]) @ b @ []" by simp
  from monotone_clockD [OF assms(1) this] Nil show ?case by simp
next
  case (Cons e ext)
  show ?case
  proof (cases "admitted env (a @ w # b) e")
    case True
    from Cons.prems(1) have split: "full = a @ w # b @ e # ext" by simp
    from limiter_spacedD [OF assms(2) split Cons.prems(2) True]
    have gap: "clk (a @ [w]) + interval \<le> clk (a @ w # b @ [e])" .
    from Cons.prems(1) have "full = (a @ w # b) @ e # [] @ ext" by simp
    from Cons.IH [OF this True]
    have "clk ((a @ w # b) @ [e]) + admissions env ((a @ w # b) @ e # []) ext * interval \<le> clk full" .
    with gap True show ?thesis by simp
  next
    case False
    from Cons.prems(1) have "full = a @ w # (b @ [e]) @ ext" by simp
    from Cons.IH [OF this Cons.prems(2)] False show ?thesis by simp
  qed
qed

lemma admissions_bound:
  assumes "monotone_clock clk full" and "limiter_spaced env clk interval full"
    and "full = before @ ext"
  shows "clk before + (admissions env before ext - 1) * interval \<le> clk full"
  using assms(3)
proof (induction ext arbitrary: before)
  case Nil
  then show ?case by simp
next
  case (Cons e ext)
  from Cons.prems have "full = before @ [e] @ ext" by simp
  from monotone_clockD [OF assms(1) this] have step: "clk before \<le> clk (before @ [e])" .
  show ?case
  proof (cases "admitted env before e")
    case True
    from Cons.prems have "full = before @ e # [] @ ext" by simp
    from since_admission [OF assms(1,2) this True] step True show ?thesis by simp
  next
    case False
    from Cons.prems have "full = (before @ [e]) @ ext" by simp
    from Cons.IH [OF this] step False show ?thesis by simp
  qed
qed

text \<open>Two requests of a guarded run are issued at least one interval apart.\<close>

lemma requests_spaced:
  assumes "limiter_spaced env clk interval (tr @ ext)" and "guarded env tr ext"
    and "ext = a @ HttpDo req # b @ HttpDo req' # c"
  shows "clk (tr @ a) + interval \<le> clk (tr @ a @ HttpDo req # b)"
proof -
  from assms(2,3) have 1: "follows_admission env (tr @ a)"
    and 2: "follows_admission env (tr @ a @ HttpDo req # b)"
    by (simp_all add: guarded_append is_request_def)
  from follows_admissionD [OF 1] obtain x w where
    x: "tr @ a = x @ [w]" and w: "admitted env x w" by blast
  from follows_admissionD [OF 2] obtain y w' where
    y: "tr @ a @ HttpDo req # b = y @ [w']" and w': "admitted env y w'" by blast
  have "b \<noteq> []"
  proof
    assume "b = []"
    with y have "w' = HttpDo req" by simp
    with w' show False by (simp add: admitted_def)
  qed
  then obtain b' where b: "b = b' @ [w']" and y': "y = tr @ a @ HttpDo req # b'"
    using y by (cases b rule: rev_cases) auto
  have full: "tr @ ext = x @ w # (HttpDo req # b') @ w' # (HttpDo req' # c)"
    using assms(3) x b by simp
  have "x @ w # (HttpDo req # b') = y"
  proof -
    have "x @ w # (HttpDo req # b') = (x @ [w]) @ HttpDo req # b'" by simp
    also have "\<dots> = (tr @ a) @ HttpDo req # b'" by (simp only: x)
    also have "\<dots> = y" by (simp add: y')
    finally show ?thesis .
  qed
  with w' have "admitted env (x @ w # (HttpDo req # b')) w'" by simp
  from limiter_spacedD [OF assms(1) full w this]
  have gap: "clk (x @ [w]) + interval \<le> clk (x @ w # (HttpDo req # b') @ [w'])" .
  have "x @ w # (HttpDo req # b') @ [w'] = (x @ [w]) @ HttpDo req # b" by (simp add: b)
  also have "\<dots> = (tr @ a) @ HttpDo req # b" by (simp only: x)
  finally have later: "x @ w # (HttpDo req # b') @ [w'] = tr @ a @ HttpDo req # b" by simp
  from gap show ?thesis unfolding later x [symmetric] .
qed


lemma limited_run_Nil [simp]: "limited_run env tr []"
  by (simp add: limited_run_def)

lemma limited_run_append:
  "limited_run env tr a \<Longrightarrow> limited_run env (tr @ a) b \<Longrightarrow> limited_run env tr (a @ b)"
  by (simp add: limited_run_def guarded_append admissions_append)

lemma limited_run_Stdout [simp]: "limited_run env tr [Stdout s]"
  by (simp add: limited_run_def is_request_def)

lemma progress_line_no_request [simp]: "\<not> is_request (progress_line tag tile n)"
  by (simp add: progress_line_def is_request_def)

lemma limited_run_progress [simp]: "limited_run env tr [progress_line tag tile n]"
  by (simp add: progress_line_def)

lemma RLHTTPClient_Do_trace:
  assumes "RLHTTPClient_Do env req tr = (r, tr')"
  shows "\<exists>ext. tr' = tr @ ext \<and> limited_run env tr ext
           \<and> length (filter is_request ext) \<le> 1
           \<and> (\<forall>resp. r = Inr resp \<longrightarrow> length (filter is_request ext) = 1)"
proof (cases "limiter_wait env tr Background")
  case None
  with assms have "tr' = tr @ [LimiterWait Background, HttpDo req]"
    by (simp add: RLHTTPClient_Do_def)
  moreover have "limited_run env tr [LimiterWait Background, HttpDo req]"
    using None by (simp add: limited_run_def is_request_def admitted_def)
  moreover have "length (filter is_request [LimiterWait Background, HttpDo req]) = 1"
    by (simp add: is_request_def)
  ultimately show ?thesis by (intro exI [of _ "[LimiterWait Background, HttpDo req]"]) simp
next
  case (Some err)
  with assms have "tr' = tr @ [LimiterWait Background]" and "r = Inl err"
    by (auto simp add: RLHTTPClient_Do_def)
  moreover have "limited_run env tr [LimiterWait Background]"
    by (simp add: limited_run_def is_request_def)
  moreover have "length (filter is_request [LimiterWait Background]) = 0"
    by (simp add: is_request_def)
  ultimately show ?thesis by (intro exI [of _ "[LimiterWait Background]"]) simp
qed

lemma fetchTile_trace:
  assumes "fetchTile env config tr = (r, tr')"
  shows "\<exists>ext. tr' = tr @ ext \<and> limited_run env tr ext
           \<and> length (filter is_request ext) \<le> 1
           \<and> (\<forall>data. r = Inr data \<longrightarrow> length (filter is_request ext) = 1)"
proof (cases "newRequest env ''GET'' (cfg_url config)")
  case (Inl err)
  with assms have "tr' = tr @ []" and "r = Inl err" by (auto simp add: fetchTile_def)
  then show ?thesis by (intro exI [of _ "[]"]) simp
next
  case (Inr req)
  obtain r0 tr0 where run: "RLHTTPClient_Do env req tr = (r0, tr0)"
    by (cases "RLHTTPClient_Do env req tr")
  from RLHTTPClient_Do_trace [OF run] obtain ext where
    ext: "tr0 = tr @ ext" "limited_run env tr ext" "length (filter is_request ext) \<le> 1"
      "\<forall>resp. r0 = Inr resp \<longrightarrow> length (filter is_request ext) = 1"
    by blast
  from assms Inr run have tr': "tr' = tr0" and r: "\<And>data. r = Inr data \<Longrightarrow> \<exists>resp. r0 = Inr resp"
    by (auto simp add: fetchTile_def split: sum.splits)
  from ext tr' r show ?thesis by (intro exI [of _ ext]) auto
qed

lemma fetchStep_trace:
  assumes "fetchStep env n tile tr = (r, tr')"
  shows "\<exists>ext. tr' = tr @ ext \<and> limited_run env tr ext
           \<and> length (filter is_request ext) \<le> 1
           \<and> (\<forall>data. r = Inr data \<longrightarrow> length (filter is_request ext) = 1)"
proof -
  let ?p = "progress_line ''[Fetching]'' tile n"
  let ?q = "progress_line ''[Done]'' tile n"
  obtain r0 tr0 where run: "fetchTile env tile (tr @ [?p]) = (r0, tr0)"
    by (cases "fetchTile env tile (tr @ [?p])")
  from fetchTile_trace [OF run] obtain ext where
    ext: "tr0 = (tr @ [?p]) @ ext" "limited_run env (tr @ [?p]) ext"
      "length (filter is_request ext) \<le> 1"
      "\<forall>data. r0 = Inr data \<longrightarrow> length (filter is_request ext) = 1"
    by blast
  from assms run have tr': "tr' = tr0 @ [?q]" and r: "r = r0"
    by (auto simp add: fetchStep_def)
  have "limited_run env tr ([?p] @ ext @ [?q])"
    by (intro limited_run_append ext(2)) simp_all
  moreover have "tr' = tr @ [?p] @ ext @ [?q]" using tr' ext(1) by simp
  moreover have "length (filter is_request ([?p] @ ext @ [?q])) = length (filter is_request ext)"
    by simp
  ultimately show ?thesis using ext(3,4) r
    by (intro exI [of _ "[?p] @ ext @ [?q]"]) (simp del: append.simps)
qed

lemma fetchLoop_trace:
  assumes "fetchLoop env n cfgs results tr = (r, tr')"
  shows "\<exists>ext. tr' = tr @ ext \<and> limited_run env tr ext
           \<and> length (filter is_request ext) \<le> length cfgs
           \<and> (\<forall>out. r = Inr out \<longrightarrow>
                 length (filter is_request ext) = length cfgs
               \<and> length out = length results + length cfgs)"
  using assms
proof (induction cfgs arbitrary: results tr)
  case Nil
  then have "tr' = tr @ []" and "r = Inr results" by simp_all
  then show ?case by (intro exI [of _ "[]"]) simp
next
  case (Cons tile rest)
  obtain r0 tr0 where step: "fetchStep env n tile tr = (r0, tr0)"
    by (cases "fetchStep env n tile tr")
  from fetchStep_trace [OF step] obtain ext where
    ext: "tr0 = tr @ ext" "limited_run env tr ext" "length (filter is_request ext) \<le> 1"
      "\<forall>data. r0 = Inr data \<longrightarrow> length (filter is_request ext) = 1"
    by blast
  show ?case
  proof (cases r0)
    case (Inl err)
    with Cons.prems step have "tr' = tr0" and "r = Inl (Err err)" by simp_all
    with ext show ?thesis by (intro exI [of _ ext]) simp
  next
    case (Inr data)
    let ?t = "\<lparr>td_x = cfg_x tile, td_y = cfg_y tile, td_data = data\<rparr>"
    from ext(4) Inr have one: "length (filter is_request ext) = 1" by simp
    show ?thesis
    proof (cases "go_append results ?t")
      case (Inl p)
      with Cons.prems step Inr have "tr' = tr0" and "r = Inl (Panic p)" by simp_all
      with ext show ?thesis by (intro exI [of _ ext]) simp
    next
      case app: (Inr results')
      then have len: "length results' = length results + 1"
        by (auto simp add: go_append_def split: if_splits)
      from Cons.prems step Inr app have "fetchLoop env n rest results' tr0 = (r, tr')" by simp
      from Cons.IH [OF this] obtain ext' where
        ext': "tr' = tr0 @ ext'" "limited_run env tr0 ext'"
          "length (filter is_request ext') \<le> length rest"
          "\<forall>out. r = Inr out \<longrightarrow> length (filter is_request ext') = length rest
                \<and> length out = length results' + length rest"
        by blast
      have "limited_run env tr (ext @ ext')"
        using ext(1,2) ext'(2) by (intro limited_run_append) simp_all
      moreover have "tr' = tr @ ext @ ext'" using ext(1) ext'(1) by simp
      ultimately show ?thesis using one ext'(3,4) len
        by (intro exI [of _ "ext @ ext'"]) simp
    qed
  qed
qed

lemma getTiles_trace:
  assumes "getTiles env panoId zoom tr = (r, tr')"
  shows "\<exists>ext. tr' = tr @ ext \<and> limited_run env tr ext
           \<and> (\<forall>tiles. r = Inr tiles \<longrightarrow> length (filter is_request ext) = length tiles)"
proof (cases "getTilesConfig panoId zoom")
  case (Inl p)
  with assms have "tr' = tr @ []" and "r = Inl (Panic p)" by (simp_all add: getTiles_def)
  then show ?thesis by (intro exI [of _ "[]"]) simp
next
  case (Inr cfgs)
  with assms have "fetchLoop env (length cfgs) cfgs [] tr = (r, tr')"
    by (simp add: getTiles_def)
  from fetchLoop_trace [OF this] show ?thesis by auto
qed

text \<open>
  Claim C8. Every request that a run of \<^verbatim>\<open>getTiles\<close> issues directly follows an admission
  by the limiter, an admission of its own, and a run that succeeds issues one request
  for each tile. So, with a limiter whose admissions lie at least \<open>interval\<close> apart (one
  event per interval, burst 1) and a clock that does not run backwards, a run that issues
  \<open>N\<close> requests takes at least \<open>(N - 1) * interval\<close>, and any two of its requests are
  issued at least \<open>interval\<close> apart: at most one request per interval. The bound is
  \<open>N - 1\<close> and not \<open>N\<close> intervals because the first admission may be immediate.
\<close>

theorem getTiles_rate_limited:
  assumes "getTiles env panoId zoom tr = (r, tr')"
  shows "\<exists>ext. tr' = tr @ ext
           \<and> guarded env tr ext
           \<and> (\<forall>tiles. r = Inr tiles \<longrightarrow> length (filter is_request ext) = length tiles)
           \<and> (monotone_clock clk tr' \<and> limiter_spaced env clk interval tr' \<longrightarrow>
                clk tr + (length (filter is_request ext) - 1) * interval \<le> clk tr'
              \<and> (\<forall>a req b req' c. ext = a @ HttpDo req # b @ HttpDo req' # c \<longrightarrow>
                    clk (tr @ a) + interval \<le> clk (tr @ a @ HttpDo req # b)))"
proof -
  from getTiles_trace [OF assms] obtain ext where
    ext: "tr' = tr @ ext" "limited_run env tr ext"
      "\<forall>tiles. r = Inr tiles \<longrightarrow> length (filter is_request ext) = length tiles"
    by blast
  from ext(2) have g: "guarded env tr ext"
    and le: "length (filter is_request ext) \<le> admissions env tr ext"
    by (simp_all add: limited_run_def)
  have "clk tr + (length (filter is_request ext) - 1) * interval \<le> clk tr'
      \<and> (\<forall>a req b req' c. ext = a @ HttpDo req # b @ HttpDo req' # c \<longrightarrow>
            clk (tr @ a) + interval \<le> clk (tr @ a @ HttpDo req # b))"
    if mono: "monotone_clock clk tr'" and sp: "limiter_spaced env clk interval tr'"
  proof (intro conjI allI impI)
    from admissions_bound [OF mono sp ext(1)]
    have "clk tr + (admissions env tr ext - 1) * interval \<le> clk tr'" .
    moreover from le
    have "(length (filter is_request ext) - 1) * interval \<le> (admissions env tr ext - 1) * interval"
      by (intro mult_right_mono) simp_all
    ultimately show "clk tr + (length (filter is_request ext) - 1) * interval \<le> clk tr'"
      by linarith
  next
    fix a req b req' c
    assume "ext = a @ HttpDo req # b @ HttpDo req' # c"
    from requests_spaced [OF sp [unfolded ext(1)] g this]
    show "clk (tr @ a) + interval \<le> clk (tr @ a @ HttpDo req # b)" .
  qed
  with ext(1,3) g show ?thesis by (intro exI [of _ ext]) blast
qed

lemma demo_clock_monotone: "monotone_clock demo_clock full"
  by (auto simp add: monotone_clock_def demo_clock_def)

lemma demo_clock_spaced: "limiter_spaced demo_env demo_clock 200 full"
proof -
  have "demo_clock (a @ [w]) + 200 \<le> demo_clock (a @ w # b @ [w'])"
    if "admitted demo_env a w" and "admitted demo_env (a @ w # b) w'" for a w b w'
  proof -
    from that(1) obtain ctx where w: "w = LimiterWait ctx"
      by (cases w) (simp_all add: admitted_def)
    from that(2) obtain ctx' where w': "w' = LimiterWait ctx'"
      by (cases w') (simp_all add: admitted_def)
    show ?thesis by (simp add: demo_clock_def w w')
  qed
  then show ?thesis unfolding limiter_spaced_def by blast
qed

text \<open>
  The run for the panorama \<open>ABC\<close> at zoom 1 in the example environment: two requests,
  the first admitted at once, 200 ms in all.
\<close>

theorem getTiles_rate_limited_witness:
  "getTiles demo_env ''ABC'' 1 [] =
     (Inr [\<lparr>td_x = 0, td_y = 0, td_data = [1, 2, 3]\<rparr>, \<lparr>td_x = 1, td_y = 0, td_data = [1, 2, 3]\<rparr>],
      [progress_line ''[Fetching]'' (tileAt ''ABC'' 1 0 0) 2,
       LimiterWait Background,
       HttpDo \<lparr>req_method = ''GET'', req_url = makePanoUrl ''ABC'' 1 0 0, req_ctx = Background\<rparr>,
       progress_line ''[Done]'' (tileAt ''ABC'' 1 0 0) 2,
       progress_line ''[Fetching]'' (tileAt ''ABC'' 1 1 0) 2,
       LimiterWait Background,
       HttpDo \<lparr>req_method = ''GET'', req_url = makePanoUrl ''ABC'' 1 1 0, req_ctx = Background\<rparr>,
       progress_line ''[Done]'' (tileAt ''ABC'' 1 1 0) 2])
   \<and> (\<exists>ext. snd (getTiles demo_env ''ABC'' 1 []) = ext
        \<and> guarded demo_env [] ext
        \<and> length (filter is_request ext) = 2
        \<and> monotone_clock demo_clock ext
        \<and> limiter_spaced demo_env demo_clock 200 ext
        \<and> demo_clock [] + (2 - 1) * 200 \<le> demo_clock ext
        \<and> demo_clock ext = 200)"
proof -
  let ?c0 = "tileAt ''ABC'' 1 0 0" and ?c1 = "tileAt ''ABC'' 1 1 0"
  let ?tiles = "[\<lparr>td_x = 0, td_y = 0, td_data = [1, 2, 3]\<rparr>, \<lparr>td_x = 1, td_y = 0, td_data = [1, 2, 3]\<rparr>]"
  let ?tr = "[progress_line ''[Fetching]'' ?c0 2,
       LimiterWait Background,
       HttpDo \<lparr>req_method = ''GET'', req_url = makePanoUrl ''ABC'' 1 0 0, req_ctx = Background\<rparr>,
       progress_line ''[Done]'' ?c0 2,
       progress_line ''[Fetching]'' ?c1 2,
       LimiterWait Background,
       HttpDo \<lparr>req_method = ''GET'', req_url = makePanoUrl ''ABC'' 1 1 0, req_ctx = Background\<rparr>,
       progress_line ''[Done]'' ?c1 2]"
  have small: "getTilesConfig ''ABC'' 1 = Inr [?c0, ?c1]"
    by (simp add: getTilesConfig_def getDimensionsFromZoom_def go_shl_def go_make_def word_sless_alt
        maxAlloc_def tileConfig_size_def colLoop.simps rowLoop.simps go_append_def maxInt_def)
  have len: "length [?c0, ?c1] = 2" by simp
  have loop: "fetchLoop demo_env 2 [?c0, ?c1] [] [] = (Inr ?tiles, ?tr)"
    by (simp add: demo_fetchStep go_append_def maxInt_def tileAt_def)
  have run: "getTiles demo_env ''ABC'' 1 [] = (Inr ?tiles, ?tr)"
    by (simp only: getTiles_def small sum.case len loop)
  note inst = getTiles_rate_limited [OF run, of demo_clock 200]
  then obtain ext where ext: "?tr = [] @ ext" and g: "guarded demo_env [] ext"
    and n: "\<forall>tiles. Inr ?tiles = (Inr tiles :: fault + tileData list) \<longrightarrow>
              length (filter is_request ext) = length tiles"
    and t: "monotone_clock demo_clock ?tr \<and> limiter_spaced demo_env demo_clock 200 ?tr \<longrightarrow>
              demo_clock [] + (length (filter is_request ext) - 1) * 200 \<le> demo_clock ?tr"
    by blast
  from ext have e: "ext = ?tr" by simp
  from n have two: "length (filter is_request ext) = 2" by simp
  from t two have bound: "demo_clock [] + (2 - 1) * 200 \<le> demo_clock ?tr"
    using demo_clock_monotone [of ?tr] demo_clock_spaced [of ?tr] by simp
  have now: "demo_clock ?tr = 200"
    by (simp add: demo_clock_def progress_line_def)
  from run have s: "snd (getTiles demo_env ''ABC'' 1 []) = ?tr" by simp
  have "guarded demo_env [] ?tr" using g unfolding e .
  moreover have "length (filter is_request ?tr) = 2" using two unfolding e .
  moreover note demo_clock_monotone [of ?tr] demo_clock_spaced [of ?tr] bound now
  ultimately have "snd (getTiles demo_env ''ABC'' 1 []) = ?tr
        \<and> guarded demo_env [] ?tr
        \<and> length (filter is_request ?tr) = 2
        \<and> monotone_clock demo_clock ?tr
        \<and> limiter_spaced demo_env demo_clock 200 ?tr
        \<and> demo_clock [] + (2 - 1) * 200 \<le> demo_clock ?tr
        \<and> demo_clock ?tr = 200"
    using s by blast
  then have "\<exists>ext. snd (getTiles demo_env ''ABC'' 1 []) = ext
        \<and> guarded demo_env [] ext
        \<and> length (filter is_request ext) = 2
        \<and> monotone_clock demo_clock ext
        \<and> limiter_spaced demo_env demo_clock 200 ext
        \<and> demo_clock [] + (2 - 1) * 200 \<le> demo_clock ext
        \<and> demo_clock ext = 200"
    by (rule exI [of _ ?tr])
  with run show ?thesis by (rule conjI)
qed

end
